theory Spec2Isabelle
  imports Complex_Main "HOL-Library.Word"
begin

section \<open>Data model of \<open>far/stencilBuilder.cpp\<close>\<close>

text \<open>
  The weight type \<open>'w\<close> stands for C++ \<open>float\<close>. Only the operations the source uses are
  required of it (the constants 0 and 1, \<open>+\<close>, \<open>*\<close>), through syntactic type classes that
  carry no algebraic law: a statement that needs a law of arithmetic has it as a
  hypothesis or in the sort of its weight type, and every other one holds for any
  arithmetic, rounding included. The source's comparison \<open>w == 0\<close> is HOL equality with \<open>0\<close>: the two
  signed zeros of IEEE compare equal there and are one value here.

  Indices are C++ \<open>int\<close>, modelled as \<open>int\<close> without wrap-around: every count here is
  bounded by the length of a vector held in memory. A vector subscript outside the vector is
  undefined behaviour in the source and the error \<open>OutOfBounds\<close> here. The \<open>assert\<close> of
  \<open>AddWithWeight\<close> is the error \<open>AssertionFailed\<close>; a negative length handed to
  \<open>reserve\<close>/\<open>resize\<close> is \<open>LengthError\<close>.
\<close>

datatype error = OutOfBounds | AssertionFailed | LengthError

text \<open>\<open>struct PointDerivWeight { float p, du, dv; }\<close>; the selectors are \<open>pw\<close>, \<open>duw\<close>,
  \<open>dvw\<close> for the fields \<open>p\<close>, \<open>du\<close>, \<open>dv\<close>.\<close>

datatype 'w PointDerivWeight = PointDerivWeight (pw: 'w) (duw: 'w) (dvw: 'w)

text \<open>The converting constructor \<open>PointDerivWeight(float w) : p(w), du(w), dv(w)\<close>.\<close>

definition PointDerivWeight1 :: "'w \<Rightarrow> 'w PointDerivWeight" where
  "PointDerivWeight1 w = PointDerivWeight w w w"

text \<open>The default constructor \<open>PointDerivWeight() : p(0), du(0), dv(0)\<close>.\<close>

definition PointDerivWeight0 :: "'w::zero PointDerivWeight" where
  "PointDerivWeight0 = PointDerivWeight 0 0 0"

instantiation PointDerivWeight :: (times) times
begin

definition times_PointDerivWeight ::
  "'a PointDerivWeight \<Rightarrow> 'a PointDerivWeight \<Rightarrow> 'a PointDerivWeight" where
  "times_PointDerivWeight lhs rhs =
     PointDerivWeight (pw lhs * pw rhs) (duw lhs * duw rhs) (dvw lhs * dvw rhs)"

instance ..

end

instantiation PointDerivWeight :: (plus) plus
begin

definition plus_PointDerivWeight ::
  "'a PointDerivWeight \<Rightarrow> 'a PointDerivWeight \<Rightarrow> 'a PointDerivWeight" where
  "plus_PointDerivWeight lhs rhs =
     PointDerivWeight (pw lhs + pw rhs) (duw lhs + duw rhs) (dvw lhs + dvw rhs)"

instance ..

end

text \<open>\<open>W(1.0)\<close> at \<open>W = PointDerivWeight\<close> is the converting constructor at 1.\<close>

instantiation PointDerivWeight :: (one) one
begin

definition one_PointDerivWeight :: "'a PointDerivWeight" where
  "one_PointDerivWeight = PointDerivWeight1 1"

instance ..

end

text \<open>The members of \<open>class WeightTable\<close>; \<open>size'\<close> is \<open>_size\<close>.\<close>

record 'w WeightTable =
  dests :: "int list"
  sources :: "int list"
  weights :: "'w list"
  duWeights :: "'w list"
  dvWeights :: "'w list"
  indices :: "int list"
  sizes :: "int list"
  size' :: int
  lastOffset :: int
  coarseVertCount :: int
  compactWeights :: bool

definition in_range :: "'a list \<Rightarrow> int \<Rightarrow> bool" where
  "in_range xs i \<longleftrightarrow> 0 \<le> i \<and> i < int (length xs)"

text \<open>\<open>std::vector::resize(n)\<close>: truncates, or pads with value-initialised elements.\<close>

definition resize :: "int \<Rightarrow> 'a::zero list \<Rightarrow> 'a list" where
  "resize n xs = take (nat n) xs @ replicate (nat n - length xs) 0"

section \<open>The constructor\<close>

text \<open>The loop \<open>for (int i = 0; i < coarseVerts; i++)\<close> of the constructor.\<close>

function ctor_loop :: "int \<Rightarrow> int \<Rightarrow> 'w::one WeightTable \<Rightarrow> error + 'w WeightTable" where
  "ctor_loop i coarseVerts t =
     (if i < coarseVerts then
        (if in_range (indices t) i \<and> in_range (sizes t) i \<and> in_range (dests t) i
            \<and> in_range (sources t) i \<and> in_range (weights t) i
         then ctor_loop (i + 1) coarseVerts
                (t\<lparr>indices := (indices t)[nat i := i],
                   sizes := (sizes t)[nat i := 1],
                   dests := (dests t)[nat i := i],
                   sources := (sources t)[nat i := i],
                   weights := (weights t)[nat i := 1]\<rparr>)
         else Inl OutOfBounds)
      else Inr t)"
  by pat_completeness auto
termination
  by (relation "measure (\<lambda>(i, n, t). nat (n - i))") auto

declare ctor_loop.simps [simp del]

text \<open>
  \<open>WeightTable(coarseVerts, genCtrlVertStencils, compactWeights)\<close>. The \<open>reserve\<close> calls
  only set capacities; their one visible effect is the exception for a negative count,
  which converts to a \<open>size_t\<close> beyond \<open>max_size()\<close>.
\<close>

definition WeightTable_new ::
  "int \<Rightarrow> bool \<Rightarrow> bool \<Rightarrow> error + ('w::{zero,one}) WeightTable" where
  "WeightTable_new coarseVerts genCtrlVertStencils compactWeights' =
     (let t0 = \<lparr>dests = [], sources = [], weights = [], duWeights = [], dvWeights = [],
                indices = [], sizes = [], size' = 0, lastOffset = 0,
                coarseVertCount = coarseVerts, compactWeights = compactWeights'\<rparr>
      in if coarseVerts < 0 then Inl LengthError
         else if \<not> genCtrlVertStencils then Inr t0
         else
           (case ctor_loop 0 coarseVerts
                   (t0\<lparr>sources := resize coarseVerts (sources t0),
                       weights := resize coarseVerts (weights t0),
                       dests := resize coarseVerts (dests t0),
                       indices := resize coarseVerts (indices t0),
                       sizes := resize coarseVerts (sizes t0)\<rparr>) of
              Inl e \<Rightarrow> Inl e
            | Inr t \<Rightarrow> Inr (t\<lparr>size' := int (length (sources t)),
                              lastOffset := int (length (sources t)) - 1\<rparr>)))"

section \<open>Accumulators\<close>

text \<open>
  The template parameter \<open>WACCUM\<close>: the three members the engine calls, each acting on
  the table the accumulator points to. \<open>'p\<close> is the payload type \<open>W\<close>.
\<close>

record ('w, 'p) WACCUM =
  PushBack :: "'p \<Rightarrow> 'w WeightTable \<Rightarrow> 'w WeightTable"
  Add :: "int \<Rightarrow> 'p \<Rightarrow> 'w WeightTable \<Rightarrow> error + 'w WeightTable"
  Get :: "int \<Rightarrow> 'w WeightTable \<Rightarrow> error + 'p"

text \<open>\<open>ScalarAccumulator\<close>: \<open>PushBack\<close> takes a \<open>PointDerivWeight\<close>, to which the \<open>float\<close>
  converts, and stores its \<open>p\<close>.\<close>

definition ScalarAccumulator :: "('w::plus, 'w) WACCUM" where
  "ScalarAccumulator =
     \<lparr>PushBack = (\<lambda>weight t. t\<lparr>weights := weights t @ [pw (PointDerivWeight1 weight)]\<rparr>),
      Add = (\<lambda>i w t. if in_range (weights t) i
                      then Inr (t\<lparr>weights := (weights t)[nat i := weights t ! nat i + w]\<rparr>)
                      else Inl OutOfBounds),
      Get = (\<lambda>index t. if in_range (weights t) index then Inr (weights t ! nat index)
                        else Inl OutOfBounds)\<rparr>"

definition PointDerivAccumulator :: "('w::plus, 'w PointDerivWeight) WACCUM" where
  "PointDerivAccumulator =
     \<lparr>PushBack = (\<lambda>weight t. t\<lparr>weights := weights t @ [pw weight],
                               duWeights := duWeights t @ [duw weight],
                               dvWeights := dvWeights t @ [dvw weight]\<rparr>),
      Add = (\<lambda>i weight t.
               if in_range (weights t) i \<and> in_range (duWeights t) i \<and> in_range (dvWeights t) i
               then Inr (t\<lparr>weights := (weights t)[nat i := weights t ! nat i + pw weight],
                           duWeights := (duWeights t)[nat i := duWeights t ! nat i + duw weight],
                           dvWeights := (dvWeights t)[nat i := dvWeights t ! nat i + dvw weight]\<rparr>)
               else Inl OutOfBounds),
      Get = (\<lambda>index t.
               if in_range (weights t) index \<and> in_range (duWeights t) index
                  \<and> in_range (dvWeights t) index
               then Inr (PointDerivWeight (weights t ! nat index) (duWeights t ! nat index)
                           (dvWeights t ! nat index))
               else Inl OutOfBounds)\<rparr>"

section \<open>The engine: \<open>add\<close>, \<open>merge\<close>, \<open>AddWithWeight\<close>\<close>

text \<open>The body of \<open>if (_dests.empty() or dst != _dests.back())\<close> in \<open>add\<close>: the header of
  a new stencil.\<close>

definition open_stencil :: "int \<Rightarrow> 'w WeightTable \<Rightarrow> error + 'w WeightTable" where
  "open_stencil dst t =
     (let t1 = (if dst + 1 > int (length (indices t))
                then t\<lparr>indices := resize (dst + 1) (indices t),
                       sizes := resize (dst + 1) (sizes t)\<rparr>
                else t)
      in if in_range (indices t1) dst \<and> in_range (sizes t1) dst
         then Inr (t1\<lparr>indices := (indices t1)[nat dst := int (length (sources t1))],
                      sizes := (sizes t1)[nat dst := 0],
                      lastOffset := int (length (sources t1))\<rparr>)
         else Inl OutOfBounds)"

definition add ::
  "('w, 'p) WACCUM \<Rightarrow> int \<Rightarrow> int \<Rightarrow> 'p \<Rightarrow> 'w WeightTable \<Rightarrow> error + 'w WeightTable" where
  "add acc src dst weight t =
     (case (if dests t = [] \<or> dst \<noteq> last (dests t) then open_stencil dst t else Inr t) of
        Inl e \<Rightarrow> Inl e
      | Inr t1 \<Rightarrow>
          if in_range (sizes t1) dst
          then Inr (PushBack acc weight
                      (t1\<lparr>size' := size' t1 + 1,
                          sizes := (sizes t1)[nat dst := sizes t1 ! nat dst + 1],
                          dests := dests t1 @ [dst],
                          sources := sources t1 @ [src]\<rparr>))
          else Inl OutOfBounds)"

text \<open>The scan \<open>for (int i = lastOffset; i < tableSize; i++)\<close> of \<open>merge\<close>: the first
  index whose source is \<open>src\<close>, if there is one.\<close>

function merge_scan :: "int list \<Rightarrow> int \<Rightarrow> int \<Rightarrow> int \<Rightarrow> error + int option" where
  "merge_scan srcs src i tableSize =
     (if i < tableSize then
        (if \<not> in_range srcs i then Inl OutOfBounds
         else if srcs ! nat i = src then Inr (Some i)
         else merge_scan srcs src (i + 1) tableSize)
      else Inr None)"
  by pat_completeness auto
termination
  by (relation "measure (\<lambda>(srcs, src, i, n). nat (n - i))") auto

declare merge_scan.simps [simp del]

definition merge ::
  "('w, 'p::times) WACCUM \<Rightarrow> int \<Rightarrow> int \<Rightarrow> 'p \<Rightarrow> 'p \<Rightarrow> int \<Rightarrow> int \<Rightarrow> 'w WeightTable
     \<Rightarrow> error + 'w WeightTable" where
  "merge acc src dst weight weightFactor lastOffset' tableSize t =
     (if compactWeights t \<and> dests t \<noteq> [] then
        (if \<not> in_range (dests t) lastOffset' then Inl OutOfBounds
         else if dests t ! nat lastOffset' = dst then
           (case merge_scan (sources t) src lastOffset' tableSize of
              Inl e \<Rightarrow> Inl e
            | Inr (Some i) \<Rightarrow> Add acc i (weight * weightFactor) t
            | Inr None \<Rightarrow> add acc src dst (weight * weightFactor) t)
         else add acc src dst (weight * weightFactor) t)
      else add acc src dst (weight * weightFactor) t)"

text \<open>The loop \<open>for (int i = start; i < start+len; i++)\<close> of \<open>AddWithWeight\<close>; \<open>stop\<close> is
  \<open>start+len\<close>, computed once before the loop.\<close>

function AddWithWeight_loop ::
  "('w, 'p::times) WACCUM \<Rightarrow> int \<Rightarrow> 'p \<Rightarrow> int \<Rightarrow> int \<Rightarrow> 'w WeightTable
     \<Rightarrow> error + 'w WeightTable" where
  "AddWithWeight_loop acc dest weight i stop t =
     (if i < stop then
        (if \<not> in_range (sources t) i then Inl OutOfBounds
         else if \<not> (sources t ! nat i < coarseVertCount t) then Inl AssertionFailed
         else
           (case Get acc i t of
              Inl e \<Rightarrow> Inl e
            | Inr w \<Rightarrow>
                (case merge acc (sources t ! nat i) dest w weight (lastOffset t) (size' t) t of
                   Inl e \<Rightarrow> Inl e
                 | Inr t' \<Rightarrow> AddWithWeight_loop acc dest weight (i + 1) stop t')))
      else Inr t)"
  by pat_completeness auto
termination
  by (relation "measure (\<lambda>(acc, dest, weight, i, stop, t). nat (stop - i))") auto

declare AddWithWeight_loop.simps [simp del]

definition AddWithWeight ::
  "('w, 'p::{times,one}) WACCUM \<Rightarrow> int \<Rightarrow> int \<Rightarrow> 'p \<Rightarrow> 'w WeightTable
     \<Rightarrow> error + 'w WeightTable" where
  "AddWithWeight acc src dest weight t =
     (if src < coarseVertCount t
      then merge acc src dest weight 1 (lastOffset t) (size' t) t
      else if \<not> in_range (sizes t) src \<or> \<not> in_range (indices t) src then Inl OutOfBounds
      else
        (let len = sizes t ! nat src; start = indices t ! nat src
         in AddWithWeight_loop acc dest weight start (start + len) t))"

section \<open>The facade: \<open>StencilBuilder\<close> and \<open>StencilBuilder::Index\<close>\<close>

text \<open>
  Modelled from the spec: the class \<open>Stencil\<close> is declared outside this file. It is the
  external stencil of the interface section, "any caller-supplied object exposing a
  contribution count, a coarse-index array, and a weight array", read here through
  \<open>GetSizePtr\<close>, \<open>GetVertexIndices\<close> and \<open>GetWeights\<close>.
\<close>

datatype 'w Stencil =
  Stencil (GetSizePtr: int) (GetVertexIndices: "int list") (GetWeights: "'w list")

text \<open>A \<open>StencilBuilder\<close> owns exactly one \<open>WeightTable\<close> and is identified with it; an
  \<open>Index\<close> handle is its destination id \<open>dest\<close> (the member \<open>_index\<close>).\<close>

definition StencilBuilder_new ::
  "int \<Rightarrow> bool \<Rightarrow> bool \<Rightarrow> error + ('w::{zero,one}) WeightTable" where
  "StencilBuilder_new coarseVertCount' genCtrlVertStencils compactWeights' =
     WeightTable_new coarseVertCount' genCtrlVertStencils compactWeights'"

definition GetNumVerticesTotal :: "'w WeightTable \<Rightarrow> nat" where
  "GetNumVerticesTotal t = length (weights t)"

text \<open>\<open>stencilIndex\<close> and \<open>size()\<close> are \<open>size_t\<close>: 64-bit words, so that \<open>size() - 1\<close> wraps.\<close>

definition GetNumVertsInStencil :: "'w WeightTable \<Rightarrow> 64 word \<Rightarrow> error + int" where
  "GetNumVertsInStencil t stencilIndex =
     (if stencilIndex > word_of_nat (length (sizes t)) - 1 then Inr 0
      else if unat stencilIndex < length (sizes t) then Inr (sizes t ! unat stencilIndex)
      else Inl OutOfBounds)"

text \<open>\<open>Index::AddWithWeight(Index const & src, float weight)\<close>.\<close>

definition Index_AddWithWeight ::
  "int \<Rightarrow> int \<Rightarrow> 'w \<Rightarrow> ('w::{zero,one,plus,times}) WeightTable \<Rightarrow> error + 'w WeightTable" where
  "Index_AddWithWeight dest src weight t =
     (if weight = 0 then Inr t
      else AddWithWeight ScalarAccumulator src dest weight t)"

text \<open>The loop of \<open>Index::AddWithWeight(Stencil const& src, float weight)\<close>.\<close>

function Stencil_loop ::
  "int \<Rightarrow> 'w Stencil \<Rightarrow> 'w \<Rightarrow> int \<Rightarrow> int \<Rightarrow> ('w::{zero,one,plus,times}) WeightTable
     \<Rightarrow> error + 'w WeightTable" where
  "Stencil_loop dest src weight i srcSize t =
     (if i < srcSize then
        (if \<not> in_range (GetWeights src) i then Inl OutOfBounds
         else
           (let w = GetWeights src ! nat i
            in if w = 0 then Stencil_loop dest src weight (i + 1) srcSize t
               else if \<not> in_range (GetVertexIndices src) i then Inl OutOfBounds
               else
                 (case AddWithWeight ScalarAccumulator (GetVertexIndices src ! nat i) dest
                         (weight * w) t of
                    Inl e \<Rightarrow> Inl e
                  | Inr t' \<Rightarrow> Stencil_loop dest src weight (i + 1) srcSize t')))
      else Inr t)"
  by pat_completeness auto
termination
  by (relation "measure (\<lambda>(dest, src, weight, i, srcSize, t). nat (srcSize - i))") auto

declare Stencil_loop.simps [simp del]

definition Index_AddWithWeight_Stencil ::
  "int \<Rightarrow> 'w Stencil \<Rightarrow> 'w \<Rightarrow> ('w::{zero,one,plus,times}) WeightTable
     \<Rightarrow> error + 'w WeightTable" where
  "Index_AddWithWeight_Stencil dest src weight t =
     (if weight = 0 then Inr t
      else Stencil_loop dest src weight 0 (GetSizePtr src) t)"

text \<open>The loop of \<open>Index::AddWithWeight(Stencil const& src, float weight, float du,
  float dv)\<close>; in \<open>PointDerivWeight(weight, du, dv) * w\<close> the \<open>float w\<close> converts.\<close>

function StencilDeriv_loop ::
  "int \<Rightarrow> 'w Stencil \<Rightarrow> 'w \<Rightarrow> 'w \<Rightarrow> 'w \<Rightarrow> int \<Rightarrow> int
     \<Rightarrow> ('w::{zero,one,plus,times}) WeightTable \<Rightarrow> error + 'w WeightTable" where
  "StencilDeriv_loop dest src weight du dv i srcSize t =
     (if i < srcSize then
        (if \<not> in_range (GetWeights src) i then Inl OutOfBounds
         else
           (let w = GetWeights src ! nat i
            in if w = 0 then StencilDeriv_loop dest src weight du dv (i + 1) srcSize t
               else if \<not> in_range (GetVertexIndices src) i then Inl OutOfBounds
               else
                 (case AddWithWeight PointDerivAccumulator (GetVertexIndices src ! nat i) dest
                         (PointDerivWeight weight du dv * PointDerivWeight1 w) t of
                    Inl e \<Rightarrow> Inl e
                  | Inr t' \<Rightarrow> StencilDeriv_loop dest src weight du dv (i + 1) srcSize t')))
      else Inr t)"
  by pat_completeness auto
termination
  by (relation "measure (\<lambda>(dest, src, weight, du, dv, i, srcSize, t). nat (srcSize - i))")
     auto

declare StencilDeriv_loop.simps [simp del]

definition Index_AddWithWeight_Deriv ::
  "int \<Rightarrow> 'w Stencil \<Rightarrow> 'w \<Rightarrow> 'w \<Rightarrow> 'w \<Rightarrow> ('w::{zero,one,plus,times}) WeightTable
     \<Rightarrow> error + 'w WeightTable" where
  "Index_AddWithWeight_Deriv dest src weight du dv t =
     (if weight = 0 \<and> du = 0 \<and> dv = 0 then Inr t
      else StencilDeriv_loop dest src weight du dv 0 (GetSizePtr src) t)"

section \<open>Programs of facade calls\<close>

text \<open>A write is one call of a facade entry point on the handle \<open>dest\<close>.\<close>

datatype 'w "write" =
    AddIndex int int 'w
  | AddStencil int "'w Stencil" 'w
  | AddStencilDeriv int "'w Stencil" 'w 'w 'w

fun apply_write ::
  "('w::{zero,one,plus,times}) write \<Rightarrow> 'w WeightTable \<Rightarrow> error + 'w WeightTable" where
  "apply_write (AddIndex dest src weight) t = Index_AddWithWeight dest src weight t"
| "apply_write (AddStencil dest src weight) t = Index_AddWithWeight_Stencil dest src weight t"
| "apply_write (AddStencilDeriv dest src weight du dv) t =
     Index_AddWithWeight_Deriv dest src weight du dv t"

text \<open>A program runs its writes in order and stops at the first failure.\<close>

fun run ::
  "('w::{zero,one,plus,times}) write list \<Rightarrow> 'w WeightTable \<Rightarrow> error + 'w WeightTable" where
  "run [] t = Inr t"
| "run (x # xs) t = (case apply_write x t of Inl e \<Rightarrow> Inl e | Inr t' \<Rightarrow> run xs t')"

fun is_scalar :: "'w write \<Rightarrow> bool" where
  "is_scalar (AddStencilDeriv dest src weight du dv) = False"
| "is_scalar x = True"

fun is_deriv :: "'w write \<Rightarrow> bool" where
  "is_deriv (AddStencilDeriv dest src weight du dv) = True"
| "is_deriv x = False"

section \<open>The sequential contract\<close>

text \<open>The entries of an external stencil that its facade loop hands to the engine: those
  among the first \<open>GetSizePtr\<close> whose weight is not zero.\<close>

definition stencil_entries :: "('w::zero) Stencil \<Rightarrow> (int \<times> 'w) list" where
  "stencil_entries st =
     filter (\<lambda>e. snd e \<noteq> 0)
       (take (nat (GetSizePtr st)) (zip (GetVertexIndices st) (GetWeights st)))"

text \<open>An external stencil is well formed when its two arrays hold \<open>GetSizePtr\<close> entries.\<close>

definition stencil_ok :: "'w Stencil \<Rightarrow> bool" where
  "stencil_ok st \<longleftrightarrow> GetSizePtr st \<le> int (length (GetVertexIndices st))
                   \<and> GetSizePtr st \<le> int (length (GetWeights st))"

fun write_ok :: "'w write \<Rightarrow> bool" where
  "write_ok (AddIndex dest src weight) = True"
| "write_ok (AddStencil dest st weight) = stencil_ok st"
| "write_ok (AddStencilDeriv dest st weight du dv) = stencil_ok st"

text \<open>The engine calls \<open>(dest, src)\<close> a write makes; a write the facade drops makes none.\<close>

fun calls_of :: "('w::zero) write \<Rightarrow> (int \<times> int) list" where
  "calls_of (AddIndex dest src weight) = (if weight = 0 then [] else [(dest, src)])"
| "calls_of (AddStencil dest st weight) =
     (if weight = 0 then [] else map (\<lambda>e. (dest, fst e)) (stencil_entries st))"
| "calls_of (AddStencilDeriv dest st weight du dv) =
     (if weight = 0 \<and> du = 0 \<and> dv = 0 then []
      else map (\<lambda>e. (dest, fst e)) (stencil_entries st))"

text \<open>
  The contract over a sequence of engine calls; \<open>hist\<close> lists the destinations of the
  contributions made so far, in order. A destination is new or the one being built
  (all contributions for one destination are consecutive), and a source is coarse or a
  destination built before and not the one being built (dependency order).
\<close>

fun seq_contract :: "int \<Rightarrow> int list \<Rightarrow> (int \<times> int) list \<Rightarrow> bool" where
  "seq_contract n hist [] = True"
| "seq_contract n hist ((dest, src) # cs) =
     (0 \<le> dest \<and> (dest \<in> set hist \<longrightarrow> last hist = dest)
      \<and> (src < n \<or> (src \<in> set hist \<and> src \<noteq> dest))
      \<and> seq_contract n (hist @ [dest]) cs)"

definition contract :: "int \<Rightarrow> int list \<Rightarrow> ('w::zero) write list \<Rightarrow> bool" where
  "contract n hist ws \<longleftrightarrow>
     list_all write_ok ws \<and> seq_contract n hist (concat (map calls_of ws))"

section \<open>State invariants\<close>

text \<open>The members no accumulator touches.\<close>

definition struct ::
  "'w WeightTable \<Rightarrow> int list \<times> int list \<times> int list \<times> int list \<times> int \<times> int \<times> int \<times> bool" where
  "struct t = (dests t, sources t, indices t, sizes t, size' t, lastOffset t,
               coarseVertCount t, compactWeights t)"

text \<open>The per-entry arrays are parallel and \<open>_size\<close> caches their length.\<close>

definition parallel :: "'w WeightTable \<Rightarrow> bool" where
  "parallel t \<longleftrightarrow> length (dests t) = length (sources t)
                 \<and> length (weights t) = length (sources t)
                 \<and> size' t = int (length (sources t))"

definition deriv_parallel :: "'w WeightTable \<Rightarrow> bool" where
  "deriv_parallel t \<longleftrightarrow> length (duWeights t) = length (weights t)
                       \<and> length (dvWeights t) = length (weights t)"

definition coarse_only :: "'w WeightTable \<Rightarrow> bool" where
  "coarse_only t \<longleftrightarrow> (\<forall>i<length (sources t). sources t ! i < coarseVertCount t)"

definition ranges_ok :: "'w WeightTable \<Rightarrow> bool" where
  "ranges_ok t \<longleftrightarrow> length (indices t) = length (sizes t)
     \<and> (\<forall>d<length (sizes t). 0 \<le> indices t ! d \<and> 0 \<le> sizes t ! d
            \<and> indices t ! d + sizes t ! d \<le> int (length (sources t)))"

text \<open>\<open>_lastOffset\<close> is the start of the stencil of the last destination, which runs to
  the end of the flat arrays.\<close>

definition open_ok :: "'w WeightTable \<Rightarrow> bool" where
  "open_ok t \<longleftrightarrow> (dests t \<noteq> [] \<longrightarrow>
       in_range (dests t) (lastOffset t)
     \<and> (\<forall>i<length (dests t). nat (lastOffset t) \<le> i \<longrightarrow> dests t ! i = last (dests t))
     \<and> in_range (sizes t) (last (dests t))
     \<and> indices t ! nat (last (dests t)) = lastOffset t
     \<and> sizes t ! nat (last (dests t)) = int (length (sources t)) - lastOffset t)"

definition dests_ok :: "'w WeightTable \<Rightarrow> bool" where
  "dests_ok t \<longleftrightarrow> (\<forall>d\<in>set (dests t). in_range (sizes t) d \<and> 1 \<le> sizes t ! nat d)"

text \<open>Every stencil but the last one ends at or before \<open>_lastOffset\<close>.\<close>

definition closed_below :: "'w WeightTable \<Rightarrow> bool" where
  "closed_below t \<longleftrightarrow>
     (\<forall>d<length (sizes t). (dests t = [] \<or> int d \<noteq> last (dests t)) \<longrightarrow>
         indices t ! d + sizes t ! d \<le> lastOffset t)"

text \<open>A destination id that never was a contribution target has offset 0 and size 0.\<close>

definition untouched_zero :: "'w WeightTable \<Rightarrow> bool" where
  "untouched_zero t \<longleftrightarrow>
     (\<forall>d<length (sizes t). int d \<notin> set (dests t) \<longrightarrow> sizes t ! d = 0 \<and> indices t ! d = 0)"

definition wf_table :: "'w WeightTable \<Rightarrow> bool" where
  "wf_table t \<longleftrightarrow> length (dests t) = length (sources t) \<and> size' t = int (length (sources t))
            \<and> coarse_only t \<and> ranges_ok t \<and> open_ok t \<and> dests_ok t \<and> closed_below t
            \<and> untouched_zero t"

text \<open>Every stencil of positive size lies inside the flat arrays and has coarse sources
  only.\<close>

definition coarse_stencils :: "'w WeightTable \<Rightarrow> bool" where
  "coarse_stencils t \<longleftrightarrow>
     (\<forall>d<length (sizes t). 0 < sizes t ! d \<longrightarrow>
        (\<forall>k<nat (sizes t ! d).
            in_range (sources t) (indices t ! d + int k)
          \<and> sources t ! nat (indices t ! d + int k) < coarseVertCount t))"

text \<open>
  What the engine relies on in an accumulator. \<open>ext\<close> is the condition on the arrays of
  the accumulator, beyond \<open>weights\<close>, under which its reads and updates are in bounds.
\<close>

definition acc_frame :: "('w, 'p) WACCUM \<Rightarrow> bool" where
  "acc_frame acc \<longleftrightarrow>
     (\<forall>w t. struct (PushBack acc w t) = struct t
           \<and> length (weights (PushBack acc w t)) = Suc (length (weights t)))
   \<and> (\<forall>i w t t'. Add acc i w t = Inr t' \<longrightarrow>
           struct t' = struct t \<and> length (weights t') = length (weights t))"

definition acc_keeps :: "('w, 'p) WACCUM \<Rightarrow> ('w WeightTable \<Rightarrow> bool) \<Rightarrow> bool" where
  "acc_keeps acc ext \<longleftrightarrow>
     (\<forall>w t. ext t \<longrightarrow> ext (PushBack acc w t))
   \<and> (\<forall>i w t t'. Add acc i w t = Inr t' \<and> ext t \<longrightarrow> ext t')
   \<and> (\<forall>t t'. weights t' = weights t \<and> duWeights t' = duWeights t
           \<and> dvWeights t' = dvWeights t \<longrightarrow> ext t' = ext t)"

definition acc_total :: "('w, 'p) WACCUM \<Rightarrow> ('w WeightTable \<Rightarrow> bool) \<Rightarrow> bool" where
  "acc_total acc ext \<longleftrightarrow>
     (\<forall>i w t. in_range (weights t) i \<and> ext t \<longrightarrow> (\<exists>t'. Add acc i w t = Inr t'))
   \<and> (\<forall>i t. in_range (weights t) i \<and> ext t \<longrightarrow> (\<exists>w. Get acc i t = Inr w))"

text \<open>Names for the intermediate states of \<open>add\<close>: the table after the \<open>resize\<close> calls,
  after the header of a new stencil, and after the entry is appended (before
  \<open>PushBack\<close>).\<close>

definition is_open :: "'w WeightTable \<Rightarrow> int \<Rightarrow> bool" where
  "is_open t d \<longleftrightarrow> dests t \<noteq> [] \<and> last (dests t) = d"

definition grown :: "int \<Rightarrow> 'w WeightTable \<Rightarrow> 'w WeightTable" where
  "grown dst t = (if dst + 1 > int (length (indices t))
                  then t\<lparr>indices := resize (dst + 1) (indices t),
                         sizes := resize (dst + 1) (sizes t)\<rparr>
                  else t)"

definition header :: "int \<Rightarrow> 'w WeightTable \<Rightarrow> 'w WeightTable" where
  "header dst t =
     (grown dst t)\<lparr>indices := (indices (grown dst t))[nat dst := int (length (sources t))],
                   sizes := (sizes (grown dst t))[nat dst := 0],
                   lastOffset := int (length (sources t))\<rparr>"

definition new_entry :: "int \<Rightarrow> int \<Rightarrow> 'w WeightTable \<Rightarrow> 'w WeightTable" where
  "new_entry src dst t =
     t\<lparr>size' := size' t + 1,
       sizes := (sizes t)[nat dst := sizes t ! nat dst + 1],
       dests := dests t @ [dst],
       sources := sources t @ [src]\<rparr>"

text \<open>The first entry of the open stencil whose source is \<open>s\<close>: what the scan of
  \<open>merge\<close> finds between \<open>_lastOffset\<close> and the end of \<open>sources\<close>.\<close>

definition scan_hit :: "'w WeightTable \<Rightarrow> int \<Rightarrow> nat option" where
  "scan_hit t s = find (\<lambda>k. sources t ! k = s) [nat (lastOffset t)..<length (sources t)]"

text \<open>A sequence of engine calls \<open>(dest, src, weight)\<close> on one accumulator.\<close>

fun run_calls ::
  "('w, 'p::{times,one}) WACCUM \<Rightarrow> (int \<times> int \<times> 'p) list \<Rightarrow> 'w WeightTable
     \<Rightarrow> error + 'w WeightTable" where
  "run_calls acc [] t = Inr t"
| "run_calls acc ((dest, src, weight) # cs) t =
     (case AddWithWeight acc src dest weight t of
        Inl e \<Rightarrow> Inl e
      | Inr t' \<Rightarrow> run_calls acc cs t')"

text \<open>The engine calls, with their weights, of a scalar write and of a derivative
  write.\<close>

fun scalar_calls :: "('w::{zero,times}) write \<Rightarrow> (int \<times> int \<times> 'w) list" where
  "scalar_calls (AddIndex dest src weight) = (if weight = 0 then [] else [(dest, src, weight)])"
| "scalar_calls (AddStencil dest st weight) =
     (if weight = 0 then []
      else map (\<lambda>e. (dest, fst e, weight * snd e)) (stencil_entries st))"
| "scalar_calls (AddStencilDeriv dest st weight du dv) = []"

fun deriv_calls ::
  "('w::{zero,times}) write \<Rightarrow> (int \<times> int \<times> 'w PointDerivWeight) list" where
  "deriv_calls (AddStencilDeriv dest st weight du dv) =
     (if weight = 0 \<and> du = 0 \<and> dv = 0 then []
      else map (\<lambda>e. (dest, fst e, PointDerivWeight weight du dv * PointDerivWeight1 (snd e)))
             (stencil_entries st))"
| "deriv_calls x = []"

text \<open>What one engine call on the destination \<open>d\<close> establishes.\<close>

definition step_post :: "('w WeightTable \<Rightarrow> bool) \<Rightarrow> 'w WeightTable \<Rightarrow> int \<Rightarrow> 'w WeightTable \<Rightarrow> bool" where
  "step_post ext t d t' \<longleftrightarrow> wf_table t' \<and> parallel t' \<and> ext t' \<and> is_open t' d
     \<and> set (dests t') = insert d (set (dests t))
     \<and> coarseVertCount t' = coarseVertCount t \<and> compactWeights t' = compactWeights t
     \<and> length (sources t) \<le> length (sources t')"

text \<open>The entries of an external stencil from position \<open>i\<close> on.\<close>

definition entries_from :: "nat \<Rightarrow> ('w::zero) Stencil \<Rightarrow> (int \<times> 'w) list" where
  "entries_from i st =
     filter (\<lambda>e. snd e \<noteq> 0)
       (drop i (take (nat (GetSizePtr st)) (zip (GetVertexIndices st) (GetWeights st))))"

text \<open>
  What \<open>add\<close> leaves when it starts a new stencil for \<open>d\<close> on the table \<open>t\<close>: the stencil
  of \<open>d\<close> is the one new entry, the earlier entries are all still there and counted, and
  none of them lies in the range that \<open>offsets[d]\<close> and \<open>sizes[d]\<close> now describe.
\<close>

definition new_stencil_post :: "'w WeightTable \<Rightarrow> int \<Rightarrow> int \<Rightarrow> 'w WeightTable \<Rightarrow> bool" where
  "new_stencil_post t d src t' \<longleftrightarrow>
       indices t' ! nat d = int (length (sources t)) \<and> sizes t' ! nat d = 1
     \<and> dests t' = dests t @ [d] \<and> sources t' = sources t @ [src]
     \<and> take (length (weights t)) (weights t') = weights t
     \<and> GetNumVerticesTotal t' = GetNumVerticesTotal t + 1
     \<and> (\<forall>i<length (sources t).
           \<not> (indices t' ! nat d \<le> int i \<and> int i < indices t' ! nat d + sizes t' ! nat d))"

text \<open>Both arrays have length \<open>d + 1\<close>, and a destination id below \<open>d\<close> that is not among
  the contribution targets has size 0 and offset 0.\<close>

definition sparse_post :: "int \<Rightarrow> 'w WeightTable \<Rightarrow> bool" where
  "sparse_post d t' \<longleftrightarrow>
       length (indices t') = nat d + 1 \<and> length (sizes t') = nat d + 1
     \<and> (\<forall>j<nat d. int j \<notin> set (dests t') \<longrightarrow> sizes t' ! j = 0 \<and> indices t' ! j = 0)"

text \<open>
  A table used as concrete input below: the one left by
  \<open>StencilBuilder(2, true, true)\<close> and the two calls \<open>Index(2).AddWithWeight(Index(0), 0.5)\<close>,
  \<open>Index(2).AddWithWeight(Index(1), 0.5)\<close>.
\<close>

definition example_table :: "real WeightTable" where
  "example_table =
     \<lparr>dests = [0, 1, 2, 2], sources = [0, 1, 0, 1], weights = [1, 1, 1/2, 1/2],
      duWeights = [], dvWeights = [], indices = [0, 1, 2], sizes = [1, 1, 2],
      size' = 4, lastOffset = 2, coarseVertCount = 2, compactWeights = True\<rparr>"

text \<open>The size of the stencil of \<open>d\<close> when \<open>d\<close> is the destination being built, and 0
  when a contribution for \<open>d\<close> starts a new stencil.\<close>

definition open_size :: "'w WeightTable \<Rightarrow> int \<Rightarrow> int" where
  "open_size t d = (if is_open t d then sizes t ! nat d else 0)"

section \<open>The value of a stencil and the expansion it is to equal\<close>












text \<open>The example of the spec, on three control vertices: \<open>A = 1.0 * control0\<close> is
  vertex 3, \<open>B = 0.6 * control1 + 0.4 * control2\<close> is vertex 4, and
  \<open>dest = 0.5 * A + 0.5 * B\<close> is vertex 5.\<close>

definition example_program :: "real write list" where
  "example_program =
     [AddIndex 3 0 1, AddIndex 4 1 (6/10), AddIndex 4 2 (4/10),
      AddIndex 5 3 (1/2), AddIndex 5 4 (1/2)]"

text \<open>
  A second table used as concrete input: the one left by \<open>StencilBuilder(2, false, true)\<close>
  and the derivative call \<open>Index(2).AddWithWeight({0: 1}, 2, 3, 5)\<close>.
\<close>

definition example_deriv_table :: "real WeightTable" where
  "example_deriv_table =
     \<lparr>dests = [2], sources = [0], weights = [2], duWeights = [3], dvWeights = [5],
      indices = [0, 0, 0], sizes = [0, 0, 1], size' = 1, lastOffset = 0,
      coarseVertCount = 2, compactWeights = True\<rparr>"

text \<open>A nested derivative program: destination 3 from the control vertex 0, destination 4
  from destination 3 and the control vertex 1.\<close>

definition example_deriv_program :: "real write list" where
  "example_deriv_program =
     [AddStencilDeriv 3 (Stencil 1 [0] [1]) 1 2 3,
      AddStencilDeriv 4 (Stencil 2 [3, 1] [1/2, 1/2]) 2 4 6]"

section \<open>The arithmetic of \<open>float\<close>\<close>

text \<open>
  The weights of the code are \<open>float\<close>: IEEE 754 binary32. A finite \<open>float\<close> is modelled by
  the rational it denotes; a sum or product is the exact result rounded to the nearest
  value with a 24 bit significand, a tie to the one with the even significand, on the
  grid of the subnormals below \<open>2\<^sup>-\<^sup>1\<^sup>2\<^sup>6\<close>. Infinities, NaN and the sign of zero are not
  modelled: the values used below are far from the overflow threshold.
\<close>

datatype float32 = Float32 (float32_value: rat)

text \<open>\<open>ilog2 n\<close> is the position of the leading bit of \<open>n\<close>.\<close>

function ilog2 :: "int \<Rightarrow> int" where
  "ilog2 n = (if n < 2 then 0 else 1 + ilog2 (n div 2))"
  by pat_completeness auto

termination
  by (relation "measure nat") auto

declare ilog2.simps [simp del]

definition pow2 :: "int \<Rightarrow> rat" where
  "pow2 e = (if 0 \<le> e then 2 ^ nat e else 1 / 2 ^ nat (- e))"

text \<open>The exponent \<open>e\<close> of a positive rational \<open>x\<close>: \<open>2\<^sup>e \<le> x < 2\<^sup>e\<^sup>+\<^sup>1\<close>.\<close>

definition exponent_of :: "rat \<Rightarrow> int" where
  "exponent_of x =
     (let (a, b) = quotient_of x;
          e0 = ilog2 a - ilog2 b
      in if pow2 e0 \<le> x then e0 else e0 - 1)"

definition round_half_even :: "rat \<Rightarrow> int" where
  "round_half_even m =
     (let f = \<lfloor>m\<rfloor>; r = m - of_int f
      in if r < 1/2 then f else if 1/2 < r then f + 1 else if even f then f else f + 1)"

definition round32 :: "rat \<Rightarrow> rat" where
  "round32 x =
     (if x = 0 then 0
      else let q = pow2 (max (exponent_of \<bar>x\<bar>) (- 126) - 23)
           in sgn x * of_int (round_half_even (\<bar>x\<bar> / q)) * q)"

instantiation float32 :: "{zero,one,plus,times}"
begin

definition zero_float32 :: float32 where
  "zero_float32 = Float32 0"

definition one_float32 :: float32 where
  "one_float32 = Float32 1"

definition plus_float32 :: "float32 \<Rightarrow> float32 \<Rightarrow> float32" where
  "plus_float32 a b = Float32 (round32 (float32_value a + float32_value b))"

definition times_float32 :: "float32 \<Rightarrow> float32 \<Rightarrow> float32" where
  "times_float32 a b = Float32 (round32 (float32_value a * float32_value b))"

instance ..

end





section \<open>Basic facts about the engine\<close>

lemma struct_eqD:
  assumes "struct t' = struct t"
  shows "dests t' = dests t" "sources t' = sources t" "indices t' = indices t"
    "sizes t' = sizes t" "size' t' = size' t" "lastOffset t' = lastOffset t"
    "coarseVertCount t' = coarseVertCount t" "compactWeights t' = compactWeights t"
  using assms by (simp_all add: struct_def)

lemma wf_struct_cong:
  assumes "struct t' = struct t"
  shows "wf_table t' = wf_table t"
  using struct_eqD[OF assms]
  by (simp add: wf_table_def coarse_only_def ranges_ok_def open_ok_def dests_ok_def closed_below_def
      untouched_zero_def)

lemma ScalarAccumulator_frame: "acc_frame ScalarAccumulator"
  by (auto simp: acc_frame_def ScalarAccumulator_def struct_def split: if_splits)

lemma PointDerivAccumulator_frame: "acc_frame PointDerivAccumulator"
  by (auto simp: acc_frame_def PointDerivAccumulator_def struct_def split: if_splits)

lemma ScalarAccumulator_total: "acc_total ScalarAccumulator (\<lambda>t. True)"
  by (simp add: acc_total_def ScalarAccumulator_def)

lemma PointDerivAccumulator_total: "acc_total PointDerivAccumulator deriv_parallel"
  by (auto simp: acc_total_def PointDerivAccumulator_def deriv_parallel_def in_range_def)

lemma ScalarAccumulator_keeps: "acc_keeps ScalarAccumulator (\<lambda>t. True)"
  by (simp add: acc_keeps_def)

lemma PointDerivAccumulator_keeps: "acc_keeps PointDerivAccumulator deriv_parallel"
  by (auto simp: acc_keeps_def PointDerivAccumulator_def deriv_parallel_def split: if_splits)

lemma length_resize: "length (resize n xs) = nat n"
  by (simp add: resize_def)

lemma nth_resize:
  "j < nat n \<Longrightarrow> resize n xs ! j = (if j < length xs then xs ! j else 0)"
  by (simp add: resize_def nth_append)

lemma grown_frame:
  "dests (grown d t) = dests t" "sources (grown d t) = sources t"
  "weights (grown d t) = weights t" "duWeights (grown d t) = duWeights t"
  "dvWeights (grown d t) = dvWeights t" "size' (grown d t) = size' t"
  "lastOffset (grown d t) = lastOffset t" "coarseVertCount (grown d t) = coarseVertCount t"
  "compactWeights (grown d t) = compactWeights t"
  by (simp_all add: grown_def)

lemma grown_length:
  assumes "0 \<le> d" and "length (indices t) = length (sizes t)"
  shows "length (indices (grown d t)) = max (length (sizes t)) (nat d + 1)"
    and "length (sizes (grown d t)) = max (length (sizes t)) (nat d + 1)"
  using assms by (auto simp: grown_def length_resize)

lemma grown_nth:
  assumes "0 \<le> d" and "length (indices t) = length (sizes t)"
    and "j < max (length (sizes t)) (nat d + 1)"
  shows "indices (grown d t) ! j = (if j < length (sizes t) then indices t ! j else 0)"
    and "sizes (grown d t) ! j = (if j < length (sizes t) then sizes t ! j else 0)"
  using assms by (auto simp: grown_def nth_resize)

lemma open_stencil_eq:
  assumes "0 \<le> dst" and "length (indices t) = length (sizes t)"
  shows "open_stencil dst t = Inr (header dst t)"
  using assms
  by (auto simp: open_stencil_def grown_def header_def Let_def in_range_def length_resize)

lemma header_frame:
  "dests (header d t) = dests t" "sources (header d t) = sources t"
  "weights (header d t) = weights t" "duWeights (header d t) = duWeights t"
  "dvWeights (header d t) = dvWeights t" "size' (header d t) = size' t"
  "lastOffset (header d t) = int (length (sources t))"
  "coarseVertCount (header d t) = coarseVertCount t"
  "compactWeights (header d t) = compactWeights t"
  by (simp_all add: header_def grown_frame)

lemma header_length:
  assumes "0 \<le> d" and "length (indices t) = length (sizes t)"
  shows "length (indices (header d t)) = max (length (sizes t)) (nat d + 1)"
    and "length (sizes (header d t)) = max (length (sizes t)) (nat d + 1)"
  using grown_length[OF assms] by (simp_all add: header_def)

lemma header_nth:
  assumes "0 \<le> d" and "length (indices t) = length (sizes t)"
    and "j < max (length (sizes t)) (nat d + 1)"
  shows "indices (header d t) ! j =
           (if j = nat d then int (length (sources t))
            else if j < length (sizes t) then indices t ! j else 0)"
    and "sizes (header d t) ! j =
           (if j = nat d then 0 else if j < length (sizes t) then sizes t ! j else 0)"
  using grown_nth[OF assms] grown_length[OF assms(1,2)] assms(3)
  by (simp_all add: header_def nth_list_update)

lemma add_fresh_eq:
  assumes "0 \<le> d" and "length (indices t) = length (sizes t)" and "\<not> is_open t d"
  shows "add acc s d w t = Inr (PushBack acc w (new_entry s d (header d t)))"
proof -
  have "in_range (sizes (header d t)) d"
    using header_length(2)[OF assms(1,2)] assms(1) by (simp add: in_range_def)
  then show ?thesis
    using assms(3) open_stencil_eq[OF assms(1,2)]
    by (auto simp: add_def is_open_def new_entry_def)
qed

lemma add_open_eq:
  assumes "is_open t d" and "in_range (sizes t) d"
  shows "add acc s d w t = Inr (PushBack acc w (new_entry s d t))"
  using assms by (simp add: add_def is_open_def new_entry_def)


lemma wf_tableD:
  assumes "wf_table t"
  shows "length (dests t) = length (sources t)" "size' t = int (length (sources t))"
    "coarse_only t" "ranges_ok t" "open_ok t" "dests_ok t" "closed_below t" "untouched_zero t"
  using assms by (simp_all add: wf_table_def)

lemma ranges_okD:
  assumes "ranges_ok t" and "j < length (sizes t)"
  shows "0 \<le> indices t ! j" "0 \<le> sizes t ! j"
    "indices t ! j + sizes t ! j \<le> int (length (sources t))"
  using assms by (simp_all add: ranges_ok_def)

lemma fresh_fields:
  fixes s d :: int and t :: "'w WeightTable"
  assumes "0 \<le> d" and "length (indices t) = length (sizes t)"
  defines "t2 \<equiv> new_entry s d (header d t)"
  shows "dests t2 = dests t @ [d]" "sources t2 = sources t @ [s]"
    "lastOffset t2 = int (length (sources t))" "size' t2 = size' t + 1"
    "coarseVertCount t2 = coarseVertCount t" "compactWeights t2 = compactWeights t"
    "weights t2 = weights t" "duWeights t2 = duWeights t" "dvWeights t2 = dvWeights t"
    "length (indices t2) = max (length (sizes t)) (nat d + 1)"
    "length (sizes t2) = max (length (sizes t)) (nat d + 1)"
    "\<And>j. j < max (length (sizes t)) (nat d + 1) \<Longrightarrow> indices t2 ! j =
           (if j = nat d then int (length (sources t))
            else if j < length (sizes t) then indices t ! j else 0)"
    "\<And>j. j < max (length (sizes t)) (nat d + 1) \<Longrightarrow> sizes t2 ! j =
           (if j = nat d then 1 else if j < length (sizes t) then sizes t ! j else 0)"
  using header_length[OF assms(1,2)] header_nth[OF assms(1,2)]
  by (simp_all add: t2_def new_entry_def header_frame nth_list_update)

lemma open_fields:
  fixes s d :: int and t :: "'w WeightTable"
  defines "t2 \<equiv> new_entry s d t"
  shows "dests t2 = dests t @ [d]" "sources t2 = sources t @ [s]"
    "lastOffset t2 = lastOffset t" "size' t2 = size' t + 1"
    "coarseVertCount t2 = coarseVertCount t" "compactWeights t2 = compactWeights t"
    "weights t2 = weights t" "duWeights t2 = duWeights t" "dvWeights t2 = dvWeights t"
    "indices t2 = indices t"
    "sizes t2 = (sizes t)[nat d := sizes t ! nat d + 1]"
  by (simp_all add: t2_def new_entry_def)

lemma wf_fresh:
  assumes wf_table: "wf_table t" and d: "0 \<le> d" and s: "s < coarseVertCount t"
  shows "wf_table (new_entry s d (header d t))"
proof -
  let ?t2 = "new_entry s d (header d t)"
  let ?L = "length (sizes t)"
  let ?len = "int (length (sources t))"
  note w = wf_tableD[OF wf_table]
  have eq: "length (indices t) = length (sizes t)" using w(4) by (simp add: ranges_ok_def)
  note f = fresh_fields[OF d eq, where s = s]
  have c1: "coarse_only ?t2"
    using w(3) s by (auto simp: coarse_only_def f nth_append)
  have c2: "ranges_ok ?t2"
    using w(4) by (auto simp: ranges_ok_def f)
  have c3: "open_ok ?t2"
    using w(1) d by (auto simp: open_ok_def f in_range_def nth_append)
  have c4: "dests_ok ?t2"
    using w(6) d by (auto simp: dests_ok_def f in_range_def)
  have c5: "closed_below ?t2"
    using w(4) d by (auto simp: closed_below_def ranges_ok_def f)
  have c6: "untouched_zero ?t2"
    using w(8) d by (auto simp: untouched_zero_def f)
  show ?thesis using c1 c2 c3 c4 c5 c6 w(1,2) by (simp add: wf_table_def f)
qed

lemma wf_open:
  assumes wf_table: "wf_table t" and op: "is_open t d" and s: "s < coarseVertCount t"
  shows "wf_table (new_entry s d t)"
proof -
  let ?t2 = "new_entry s d t"
  note w = wf_tableD[OF wf_table]
  note f = open_fields[where s = s and d = d and t = t]
  have ne: "dests t \<noteq> []" and la: "last (dests t) = d" using op by (simp_all add: is_open_def)
  have o: "in_range (dests t) (lastOffset t)"
     "\<forall>i<length (dests t). nat (lastOffset t) \<le> i \<longrightarrow> dests t ! i = d"
     "in_range (sizes t) d" "indices t ! nat d = lastOffset t"
     "sizes t ! nat d = int (length (sources t)) - lastOffset t"
    using w(5) ne la by (simp_all add: open_ok_def)
  have c1: "coarse_only ?t2"
    using w(3) s by (auto simp: coarse_only_def f nth_append)
  have c2: "ranges_ok ?t2"
  proof -
    have A: "\<forall>j<length (sizes ?t2). 0 \<le> indices ?t2 ! j \<and> 0 \<le> sizes ?t2 ! j
            \<and> indices ?t2 ! j + sizes ?t2 ! j \<le> int (length (sources ?t2))"
    proof (intro allI impI)
      fix j assume "j < length (sizes ?t2)"
      then have j: "j < length (sizes t)" by (simp add: f)
      show "0 \<le> indices ?t2 ! j \<and> 0 \<le> sizes ?t2 ! j
            \<and> indices ?t2 ! j + sizes ?t2 ! j \<le> int (length (sources ?t2))"
        using ranges_okD[OF w(4) j] j by (cases "j = nat d") (simp_all add: f)
    qed
    have B: "length (indices ?t2) = length (sizes ?t2)"
      using w(4) by (simp add: ranges_ok_def f)
    show ?thesis unfolding ranges_ok_def using A B by blast
  qed
  have c3: "open_ok ?t2"
    using w(1) o by (auto simp: open_ok_def f in_range_def nth_append)
  have c4: "dests_ok ?t2"
    using w(1,6) o by (auto simp: dests_ok_def f in_range_def nth_list_update)
  have c5: "closed_below ?t2"
    using w(1,7) o ne la by (auto simp: closed_below_def f in_range_def nth_list_update)
  have c6: "untouched_zero ?t2"
    using w(1,8) o ne la by (auto simp: untouched_zero_def f in_range_def nth_list_update)
  show ?thesis using c1 c2 c3 c4 c5 c6 w(1,2) by (simp add: wf_table_def f)
qed

lemma merge_scan_find:
  "0 \<le> i \<Longrightarrow> n \<le> int (length srcs) \<Longrightarrow>
   merge_scan srcs src i n =
     Inr (map_option int (find (\<lambda>k. srcs ! k = src) [nat i..<nat n]))"
proof (induction srcs src i n rule: merge_scan.induct)
  case (1 srcs src i n)
  show ?case
  proof (cases "i < n")
    case False
    then show ?thesis by (simp add: merge_scan.simps[of srcs src i n])
  next
    case True
    then have rng: "in_range srcs i" using 1(2,3) by (simp add: in_range_def)
    have up: "[nat i..<nat n] = nat i # [nat (i + 1)..<nat n]"
      using True 1(2) by (simp add: upt_conv_Cons nat_add_distrib)
    show ?thesis
    proof (cases "srcs ! nat i = src")
      case True
      then show ?thesis using \<open>i < n\<close> rng 1(2) up
        by (simp add: merge_scan.simps[of srcs src i n])
    next
      case False
      have "merge_scan srcs src i n = merge_scan srcs src (i + 1) n"
        using \<open>i < n\<close> rng False by (simp add: merge_scan.simps[of srcs src i n])
      also have "\<dots> = Inr (map_option int (find (\<lambda>k. srcs ! k = src) [nat (i + 1)..<nat n]))"
        using 1(1)[OF \<open>i < n\<close> _ False] rng 1(2,3) by simp
      finally show ?thesis using False up by simp
    qed
  qed
qed

lemma open_okD:
  assumes "wf_table t" and "dests t \<noteq> []"
  shows "in_range (dests t) (lastOffset t)"
    "dests t ! nat (lastOffset t) = last (dests t)"
    "in_range (sizes t) (last (dests t))"
    "indices t ! nat (last (dests t)) = lastOffset t"
    "sizes t ! nat (last (dests t)) = int (length (sources t)) - lastOffset t"
    "0 \<le> lastOffset t" "lastOffset t < int (length (sources t))"
proof -
  have o: "open_ok t" and l: "length (dests t) = length (sources t)"
    using assms(1) by (simp_all add: wf_table_def)
  show r: "in_range (dests t) (lastOffset t)" using o assms(2) by (simp add: open_ok_def)
  then have "nat (lastOffset t) < length (dests t)" unfolding in_range_def by linarith
  then show "dests t ! nat (lastOffset t) = last (dests t)"
    using o assms(2) by (simp add: open_ok_def)
  show "in_range (sizes t) (last (dests t))" "indices t ! nat (last (dests t)) = lastOffset t"
    "sizes t ! nat (last (dests t)) = int (length (sources t)) - lastOffset t"
    using o assms(2) by (simp_all add: open_ok_def)
  show "0 \<le> lastOffset t" "lastOffset t < int (length (sources t))"
    using r l by (simp_all add: in_range_def)
qed

lemma merge_eq:
  assumes "wf_table t"
  shows "merge acc s d a b (lastOffset t) (size' t) t =
     (if compactWeights t \<and> is_open t d then
        (case scan_hit t s of
           Some k \<Rightarrow> Add acc (int k) (a * b) t
         | None \<Rightarrow> add acc s d (a * b) t)
      else add acc s d (a * b) t)"
proof (cases "compactWeights t \<and> dests t \<noteq> []")
  case False
  then show ?thesis by (auto simp: merge_def is_open_def)
next
  case True
  then have ne: "dests t \<noteq> []" by simp
  note o = open_okD[OF assms ne]
  have sz: "size' t = int (length (sources t))" using assms by (simp add: wf_table_def)
  have scan: "merge_scan (sources t) s (lastOffset t) (size' t) = Inr (map_option int (scan_hit t s))"
    using merge_scan_find[OF o(6), of "size' t" "sources t" s] sz by (simp add: scan_hit_def)
  show ?thesis
    using True o(1,2) scan
    by (auto simp: merge_def is_open_def split: option.splits)
qed

lemma scan_hit_Some:
  assumes "scan_hit t s = Some k"
  shows "nat (lastOffset t) \<le> k" "k < length (sources t)" "sources t ! k = s"
    "\<forall>j. nat (lastOffset t) \<le> j \<and> j < k \<longrightarrow> sources t ! j \<noteq> s"
proof -
  from assms obtain i where i: "i < length [nat (lastOffset t)..<length (sources t)]"
    "sources t ! ([nat (lastOffset t)..<length (sources t)] ! i) = s"
    "k = [nat (lastOffset t)..<length (sources t)] ! i"
    "\<forall>j<i. \<not> sources t ! ([nat (lastOffset t)..<length (sources t)] ! j) = s"
    unfolding scan_hit_def find_Some_iff by blast
  have k: "k = nat (lastOffset t) + i" using i(1,3) by simp
  show "nat (lastOffset t) \<le> k" "k < length (sources t)" "sources t ! k = s"
    using i(1,2) k by simp_all
  show "\<forall>j. nat (lastOffset t) \<le> j \<and> j < k \<longrightarrow> sources t ! j \<noteq> s"
  proof (intro allI impI)
    fix j assume j: "nat (lastOffset t) \<le> j \<and> j < k"
    then have "j - nat (lastOffset t) < i" using k by linarith
    then have "sources t ! ([nat (lastOffset t)..<length (sources t)] ! (j - nat (lastOffset t))) \<noteq> s"
      using i(4) by blast
    moreover have "[nat (lastOffset t)..<length (sources t)] ! (j - nat (lastOffset t)) = j"
    proof -
      have "i < length (sources t) - nat (lastOffset t)" using i(1) by simp
      then have "nat (lastOffset t) + (j - nat (lastOffset t)) < length (sources t)"
        using j k by linarith
      then show ?thesis using j by (simp add: nth_upt)
    qed
    ultimately show "sources t ! j \<noteq> s" by simp
  qed
qed

lemma scan_hit_None:
  assumes "scan_hit t s = None"
  shows "\<forall>j. nat (lastOffset t) \<le> j \<and> j < length (sources t) \<longrightarrow> sources t ! j \<noteq> s"
  using assms unfolding scan_hit_def find_None_iff by auto

section \<open>The engine neither fails nor leaves the invariant\<close>

lemma parallelD:
  assumes "parallel t"
  shows "length (dests t) = length (sources t)" "length (weights t) = length (sources t)"
    "size' t = int (length (sources t))"
  using assms by (simp_all add: parallel_def)

lemma acc_frameD:
  assumes "acc_frame acc"
  shows "struct (PushBack acc w t) = struct t"
    "length (weights (PushBack acc w t)) = Suc (length (weights t))"
    "Add acc i w t = Inr t' \<Longrightarrow> struct t' = struct t"
    "Add acc i w t = Inr t' \<Longrightarrow> length (weights t') = length (weights t)"
  using assms unfolding acc_frame_def by blast+

lemma acc_keepsD:
  assumes "acc_keeps acc ext"
  shows "ext t \<Longrightarrow> ext (PushBack acc w t)"
    "Add acc i w t = Inr t' \<Longrightarrow> ext t \<Longrightarrow> ext t'"
    "weights t' = weights t \<Longrightarrow> duWeights t' = duWeights t \<Longrightarrow> dvWeights t' = dvWeights t
       \<Longrightarrow> ext t' = ext t"
  using assms unfolding acc_keeps_def by blast+

lemma acc_totalD:
  assumes "acc_total acc ext"
  shows "in_range (weights t) i \<Longrightarrow> ext t \<Longrightarrow> \<exists>t'. Add acc i w t = Inr t'"
    "in_range (weights t) i \<Longrightarrow> ext t \<Longrightarrow> \<exists>w. Get acc i t = Inr w"
  using assms unfolding acc_total_def by blast+

lemma parallel_struct:
  assumes "struct t' = struct t" and "length (weights t') = length (weights t)" and "parallel t"
  shows "parallel t'"
  using struct_eqD[OF assms(1)] assms(2,3) by (simp add: parallel_def)

text \<open>The entry appended by \<open>add\<close> keeps the arrays parallel.\<close>

lemma parallel_PushBack_new_entry:
  assumes fr: "acc_frame acc" and t1: "dests t1 = dests t" "sources t1 = sources t"
    "weights t1 = weights t" "size' t1 = size' t" and par: "parallel t"
  shows "parallel (PushBack acc w (new_entry s d t1))"
proof -
  let ?e = "new_entry s d t1"
  have "struct (PushBack acc w ?e) = struct ?e"
    "length (weights (PushBack acc w ?e)) = Suc (length (weights ?e))"
    using acc_frameD(1,2)[OF fr] by blast+
  then show ?thesis
    using struct_eqD[of "PushBack acc w ?e" ?e] t1 parallelD[OF par]
    by (simp add: parallel_def open_fields)
qed

lemma ext_PushBack_new_entry:
  assumes ke: "acc_keeps acc ext" and t1: "weights t1 = weights t" "duWeights t1 = duWeights t"
    "dvWeights t1 = dvWeights t" and ext: "ext t"
  shows "ext (PushBack acc w (new_entry s d t1))"
proof -
  have "ext (new_entry s d t1) = ext t"
    by (rule acc_keepsD(3)[OF ke]) (simp_all add: open_fields t1)
  then show ?thesis using ext acc_keepsD(1)[OF ke] by blast
qed

lemma add_ok:
  assumes fr: "acc_frame acc" and ke: "acc_keeps acc ext"
    and wf_table: "wf_table t" and par: "parallel t" and ext: "ext t"
    and d: "0 \<le> d" and s: "s < coarseVertCount t"
  shows "\<exists>t'. add acc s d w t = Inr t' \<and> step_post ext t d t'"
proof (cases "is_open t d")
  case True
  then have ne: "dests t \<noteq> []" and la: "last (dests t) = d" by (simp_all add: is_open_def)
  have rng: "in_range (sizes t) d" using open_okD(3)[OF wf_table ne] la by simp
  let ?t' = "PushBack acc w (new_entry s d t)"
  have eq: "add acc s d w t = Inr ?t'" by (rule add_open_eq[OF True rng])
  have st: "struct ?t' = struct (new_entry s d t)" by (rule acc_frameD(1)[OF fr])
  have w': "wf_table ?t'" using wf_open[OF wf_table True s] wf_struct_cong[OF st] by simp
  have p': "parallel ?t'" by (rule parallel_PushBack_new_entry[OF fr _ _ _ _ par]) simp_all
  have e': "ext ?t'" by (rule ext_PushBack_new_entry[OF ke _ _ _ ext]) simp_all
  have rest: "is_open ?t' d \<and> set (dests ?t') = insert d (set (dests t))
     \<and> coarseVertCount ?t' = coarseVertCount t \<and> compactWeights ?t' = compactWeights t
     \<and> length (sources t) \<le> length (sources ?t')"
    using struct_eqD[OF st] by (simp add: open_fields is_open_def)
  show ?thesis using eq w' p' e' rest by (simp add: step_post_def)
next
  case False
  have leq: "length (indices t) = length (sizes t)"
    using wf_tableD(4)[OF wf_table] by (simp add: ranges_ok_def)
  let ?t' = "PushBack acc w (new_entry s d (header d t))"
  have eq: "add acc s d w t = Inr ?t'" by (rule add_fresh_eq[OF d leq False])
  have st: "struct ?t' = struct (new_entry s d (header d t))" by (rule acc_frameD(1)[OF fr])
  have w': "wf_table ?t'" using wf_fresh[OF wf_table d s] wf_struct_cong[OF st] by simp
  have p': "parallel ?t'"
    by (rule parallel_PushBack_new_entry[OF fr _ _ _ _ par]) (simp_all add: header_frame)
  have e': "ext ?t'"
    by (rule ext_PushBack_new_entry[OF ke _ _ _ ext]) (simp_all add: header_frame)
  have rest: "is_open ?t' d \<and> set (dests ?t') = insert d (set (dests t))
     \<and> coarseVertCount ?t' = coarseVertCount t \<and> compactWeights ?t' = compactWeights t
     \<and> length (sources t) \<le> length (sources ?t')"
    using struct_eqD[OF st] by (simp add: fresh_fields[OF d leq] is_open_def)
  show ?thesis using eq w' p' e' rest by (simp add: step_post_def)
qed

lemma merge_ok:
  assumes fr: "acc_frame acc" and ke: "acc_keeps acc ext" and tot: "acc_total acc ext"
    and wf_table: "wf_table t" and par: "parallel t" and ext: "ext t"
    and d: "0 \<le> d" and s: "s < coarseVertCount t"
  shows "\<exists>t'. merge acc s d a b (lastOffset t) (size' t) t = Inr t' \<and> step_post ext t d t'"
proof (cases "compactWeights t \<and> is_open t d \<and> scan_hit t s \<noteq> None")
  case False
  then have "merge acc s d a b (lastOffset t) (size' t) t = add acc s d (a * b) t"
    by (auto simp: merge_eq[OF wf_table] split: option.splits)
  then show ?thesis using add_ok[OF fr ke wf_table par ext d s] by simp
next
  case True
  then obtain k where k: "scan_hit t s = Some k" by blast
  have eq: "merge acc s d a b (lastOffset t) (size' t) t = Add acc (int k) (a * b) t"
    using True k by (simp add: merge_eq[OF wf_table])
  have "in_range (weights t) (int k)"
    using scan_hit_Some(2)[OF k] parallelD(2)[OF par] by (simp add: in_range_def)
  then obtain t' where t': "Add acc (int k) (a * b) t = Inr t'"
    using acc_totalD(1)[OF tot _ ext] by blast
  have st: "struct t' = struct t" and lw: "length (weights t') = length (weights t)"
    using acc_frameD(3,4)[OF fr t'] by simp_all
  have "wf_table t'" using wf_table wf_struct_cong[OF st] by simp
  moreover have "parallel t'" by (rule parallel_struct[OF st lw par])
  moreover have "ext t'" by (rule acc_keepsD(2)[OF ke t' ext])
  moreover have "is_open t' d \<and> set (dests t') = insert d (set (dests t))
     \<and> coarseVertCount t' = coarseVertCount t \<and> compactWeights t' = compactWeights t
     \<and> length (sources t) \<le> length (sources t')"
    using struct_eqD[OF st] True by (auto simp: is_open_def)
  ultimately show ?thesis using eq t' by (simp add: step_post_def)
qed

lemma coarse_onlyD: "coarse_only t \<Longrightarrow> i < length (sources t) \<Longrightarrow> sources t ! i < coarseVertCount t"
  by (simp add: coarse_only_def)

lemma AddWithWeight_loop_ok:
  assumes fr: "acc_frame acc" and ke: "acc_keeps acc ext" and tot: "acc_total acc ext"
    and d: "0 \<le> d"
  shows "wf_table t \<Longrightarrow> parallel t \<Longrightarrow> ext t \<Longrightarrow> 0 \<le> i \<Longrightarrow> stop \<le> int (length (sources t)) \<Longrightarrow>
     \<exists>t'. AddWithWeight_loop acc d w i stop t = Inr t' \<and> wf_table t' \<and> parallel t' \<and> ext t'
        \<and> coarseVertCount t' = coarseVertCount t \<and> compactWeights t' = compactWeights t
        \<and> length (sources t) \<le> length (sources t')
        \<and> (i < stop \<longrightarrow> is_open t' d \<and> set (dests t') = insert d (set (dests t)))
        \<and> (\<not> i < stop \<longrightarrow> t' = t)"
proof (induction "nat (stop - i)" arbitrary: i t)
  case 0
  then have "\<not> i < stop" by simp
  then show ?case using 0 by (simp add: AddWithWeight_loop.simps[of acc d w i stop t])
next
  case (Suc m)
  then have lt: "i < stop" by linarith
  have rng: "in_range (sources t) i" using lt Suc.prems(4,5) by (simp add: in_range_def)
  then have ni: "nat i < length (sources t)" unfolding in_range_def by linarith
  have co: "sources t ! nat i < coarseVertCount t"
    using coarse_onlyD[OF wf_tableD(3)[OF Suc.prems(1)] ni] .
  have "in_range (weights t) i" using rng parallelD(2)[OF Suc.prems(2)] by (simp add: in_range_def)
  then obtain x where x: "Get acc i t = Inr x" using acc_totalD(2)[OF tot _ Suc.prems(3)] by blast
  obtain t1 where t1: "merge acc (sources t ! nat i) d x w (lastOffset t) (size' t) t = Inr t1"
    and p1: "step_post ext t d t1"
    using merge_ok[OF fr ke tot Suc.prems(1,2,3) d co] by blast
  have p1': "wf_table t1" "parallel t1" "ext t1" "is_open t1 d"
    "set (dests t1) = insert d (set (dests t))" "coarseVertCount t1 = coarseVertCount t"
    "compactWeights t1 = compactWeights t" "length (sources t) \<le> length (sources t1)"
    using p1 by (simp_all add: step_post_def)
  have step: "AddWithWeight_loop acc d w i stop t = AddWithWeight_loop acc d w (i + 1) stop t1"
    using lt rng co x t1 by (simp add: AddWithWeight_loop.simps[of acc d w i stop t])
  have m: "m = nat (stop - (i + 1))" using Suc.hyps(2) by linarith
  have i1: "0 \<le> i + 1" using Suc.prems(4) by simp
  have st1: "stop \<le> int (length (sources t1))" using Suc.prems(5) p1'(8) by linarith
  obtain t' where t': "AddWithWeight_loop acc d w (i + 1) stop t1 = Inr t'"
    and q: "wf_table t'" "parallel t'" "ext t'" "coarseVertCount t' = coarseVertCount t1"
      "compactWeights t' = compactWeights t1" "length (sources t1) \<le> length (sources t')"
      "i + 1 < stop \<longrightarrow> is_open t' d \<and> set (dests t') = insert d (set (dests t1))"
      "\<not> i + 1 < stop \<longrightarrow> t' = t1"
    using Suc.hyps(1)[OF m p1'(1,2,3) i1 st1] by blast
  have op: "is_open t' d \<and> set (dests t') = insert d (set (dests t))"
    using q(7,8) p1'(4,5) by (cases "i + 1 < stop") auto
  show ?case using step t' q(1-6) p1'(6,7,8) op lt by simp
qed

lemma dests_okD:
  assumes "dests_ok t" and "x \<in> set (dests t)"
  shows "in_range (sizes t) x" "1 \<le> sizes t ! nat x"
  using assms by (simp_all add: dests_ok_def)

lemma AddWithWeight_ok:
  assumes fr: "acc_frame acc" and ke: "acc_keeps acc ext" and tot: "acc_total acc ext"
    and wf_table: "wf_table t" and par: "parallel t" and ext: "ext t"
    and d: "0 \<le> d" and s: "s < coarseVertCount t \<or> s \<in> set (dests t)"
  shows "\<exists>t'. AddWithWeight acc s d w t = Inr t' \<and> step_post ext t d t'"
proof (cases "s < coarseVertCount t")
  case True
  then show ?thesis
    using merge_ok[OF fr ke tot wf_table par ext d True, of w 1] by (simp add: AddWithWeight_def)
next
  case False
  then have sd: "s \<in> set (dests t)" using s by simp
  note r = dests_okD[OF wf_tableD(6)[OF wf_table] sd]
  have ns: "nat s < length (sizes t)" using r(1) unfolding in_range_def by linarith
  have leq: "length (indices t) = length (sizes t)"
    using wf_tableD(4)[OF wf_table] by (simp add: ranges_ok_def)
  have ri: "in_range (indices t) s" using r(1) leq by (simp add: in_range_def)
  note g = ranges_okD[OF wf_tableD(4)[OF wf_table] ns]
  let ?start = "indices t ! nat s" and ?len = "sizes t ! nat s"
  have eq: "AddWithWeight acc s d w t = AddWithWeight_loop acc d w ?start (?start + ?len) t"
    using False r(1) ri by (simp add: AddWithWeight_def Let_def)
  obtain t' where t': "AddWithWeight_loop acc d w ?start (?start + ?len) t = Inr t'"
    and q: "wf_table t'" "parallel t'" "ext t'" "coarseVertCount t' = coarseVertCount t"
      "compactWeights t' = compactWeights t" "length (sources t) \<le> length (sources t')"
      "?start < ?start + ?len \<longrightarrow> is_open t' d \<and> set (dests t') = insert d (set (dests t))"
    using AddWithWeight_loop_ok[OF fr ke tot d wf_table par ext g(1) g(3)] by blast
  have "?start < ?start + ?len" using r(2) by linarith
  then show ?thesis using eq t' q by (simp add: step_post_def)
qed

lemma run_calls_ok:
  assumes fr: "acc_frame acc" and ke: "acc_keeps acc ext" and tot: "acc_total acc ext"
  shows "wf_table t \<Longrightarrow> parallel t \<Longrightarrow> ext t \<Longrightarrow>
     seq_contract (coarseVertCount t) hist (map (\<lambda>c. (fst c, fst (snd c))) cs) \<Longrightarrow>
     set hist = set (dests t) \<Longrightarrow>
     \<exists>t'. run_calls acc cs t = Inr t' \<and> wf_table t' \<and> parallel t' \<and> ext t'
        \<and> coarseVertCount t' = coarseVertCount t \<and> compactWeights t' = compactWeights t"
proof (induction cs arbitrary: t hist)
  case Nil
  then show ?case by simp
next
  case (Cons c cs)
  obtain d s w where c: "c = (d, s, w)" by (cases c) auto
  have d: "0 \<le> d" and s: "s < coarseVertCount t \<or> s \<in> set (dests t)"
    and rest: "seq_contract (coarseVertCount t) (hist @ [d]) (map (\<lambda>c. (fst c, fst (snd c))) cs)"
    using Cons.prems(4,5) c by auto
  obtain t1 where t1: "AddWithWeight acc s d w t = Inr t1" and p1: "step_post ext t d t1"
    using AddWithWeight_ok[OF fr ke tot Cons.prems(1,2,3) d s] by blast
  have p1': "wf_table t1" "parallel t1" "ext t1"
    "set (dests t1) = insert d (set (dests t))" "coarseVertCount t1 = coarseVertCount t"
    "compactWeights t1 = compactWeights t"
    using p1 by (simp_all add: step_post_def)
  have h: "set (hist @ [d]) = set (dests t1)" using Cons.prems(5) p1'(4) by simp
  have rest': "seq_contract (coarseVertCount t1) (hist @ [d]) (map (\<lambda>c. (fst c, fst (snd c))) cs)"
    using rest p1'(5) by simp
  obtain t' where "run_calls acc cs t1 = Inr t' \<and> wf_table t' \<and> parallel t' \<and> ext t'
        \<and> coarseVertCount t' = coarseVertCount t1 \<and> compactWeights t' = compactWeights t1"
    using Cons.IH[OF p1'(1,2,3) rest' h] by blast
  then show ?case using t1 c p1'(5,6) by simp
qed

section \<open>The facade as a sequence of engine calls\<close>

lemma run_calls_append:
  "run_calls acc (xs @ ys) t =
     (case run_calls acc xs t of Inl e \<Rightarrow> Inl e | Inr t' \<Rightarrow> run_calls acc ys t')"
proof (induction xs arbitrary: t)
  case Nil
  then show ?case by simp
next
  case (Cons c xs)
  obtain d s w where c: "c = (d, s, w)" by (cases c) auto
  show ?case using Cons.IH by (simp add: c split: sum.splits)
qed

lemma entries_from_0: "entries_from 0 st = stencil_entries st"
  by (simp add: entries_from_def stencil_entries_def)

lemma entries_from_end: "nat (GetSizePtr st) \<le> i \<Longrightarrow> entries_from i st = []"
  by (simp add: entries_from_def)

lemma entries_from_step:
  assumes "stencil_ok st" and "0 \<le> i" and "i < GetSizePtr st"
  shows "entries_from (nat i) st =
     (if GetWeights st ! nat i = 0 then entries_from (nat (i + 1)) st
      else (GetVertexIndices st ! nat i, GetWeights st ! nat i) # entries_from (nat (i + 1)) st)"
proof -
  let ?zs = "take (nat (GetSizePtr st)) (zip (GetVertexIndices st) (GetWeights st))"
  have l1: "nat i < length (GetVertexIndices st)" "nat i < length (GetWeights st)"
    using assms unfolding stencil_ok_def by linarith+
  have len: "nat i < length ?zs" using assms l1 by simp
  have nth: "?zs ! nat i = (GetVertexIndices st ! nat i, GetWeights st ! nat i)"
    using assms l1 by simp
  have "drop (nat i) ?zs = ?zs ! nat i # drop (Suc (nat i)) ?zs"
    by (rule Cons_nth_drop_Suc[OF len, symmetric])
  moreover have "Suc (nat i) = nat (i + 1)" using assms(2) by linarith
  ultimately have "drop (nat i) ?zs
      = (GetVertexIndices st ! nat i, GetWeights st ! nat i) # drop (nat (i + 1)) ?zs"
    using nth by simp
  then show ?thesis unfolding entries_from_def by simp
qed

lemma stencil_ok_in_range:
  assumes "stencil_ok st" and "0 \<le> i" and "i < GetSizePtr st"
  shows "in_range (GetWeights st) i" "in_range (GetVertexIndices st) i"
  using assms unfolding stencil_ok_def in_range_def by linarith+

lemma Stencil_loop_calls:
  assumes ok: "stencil_ok st"
  shows "0 \<le> i \<Longrightarrow> Stencil_loop d st w i (GetSizePtr st) t =
     run_calls ScalarAccumulator (map (\<lambda>e. (d, fst e, w * snd e)) (entries_from (nat i) st)) t"
proof (induction "nat (GetSizePtr st - i)" arbitrary: i t)
  case 0
  then have "\<not> i < GetSizePtr st" by simp
  moreover from this have "entries_from (nat i) st = []"
    using 0 by (intro entries_from_end) linarith
  ultimately show ?case by (simp add: Stencil_loop.simps[of d st w i "GetSizePtr st" t])
next
  case (Suc m)
  then have lt: "i < GetSizePtr st" by linarith
  note r = stencil_ok_in_range[OF ok Suc.prems lt]
  have m: "m = nat (GetSizePtr st - (i + 1))" using Suc.hyps(2) by linarith
  have i1: "0 \<le> i + 1" using Suc.prems by simp
  note IH = Suc.hyps(1)[OF m i1]
  note es = entries_from_step[OF ok Suc.prems lt]
  show ?case
  proof (cases "GetWeights st ! nat i = 0")
    case True
    then show ?thesis
      using lt r IH es by (simp add: Stencil_loop.simps[of d st w i "GetSizePtr st" t])
  next
    case False
    then show ?thesis
      using lt r IH es
      by (simp add: Stencil_loop.simps[of d st w i "GetSizePtr st" t] split: sum.splits)
  qed
qed

lemma StencilDeriv_loop_calls:
  assumes ok: "stencil_ok st"
  shows "0 \<le> i \<Longrightarrow> StencilDeriv_loop d st w du dv i (GetSizePtr st) t =
     run_calls PointDerivAccumulator
       (map (\<lambda>e. (d, fst e, PointDerivWeight w du dv * PointDerivWeight1 (snd e)))
          (entries_from (nat i) st)) t"
proof (induction "nat (GetSizePtr st - i)" arbitrary: i t)
  case 0
  then have "\<not> i < GetSizePtr st" by simp
  moreover from this have "entries_from (nat i) st = []"
    using 0 by (intro entries_from_end) linarith
  ultimately show ?case
    by (simp add: StencilDeriv_loop.simps[of d st w du dv i "GetSizePtr st" t])
next
  case (Suc m)
  then have lt: "i < GetSizePtr st" by linarith
  note r = stencil_ok_in_range[OF ok Suc.prems lt]
  have m: "m = nat (GetSizePtr st - (i + 1))" using Suc.hyps(2) by linarith
  have i1: "0 \<le> i + 1" using Suc.prems by simp
  note IH = Suc.hyps(1)[OF m i1]
  note es = entries_from_step[OF ok Suc.prems lt]
  show ?case
  proof (cases "GetWeights st ! nat i = 0")
    case True
    then show ?thesis
      using lt r IH es
      by (simp add: StencilDeriv_loop.simps[of d st w du dv i "GetSizePtr st" t])
  next
    case False
    then show ?thesis
      using lt r IH es
      by (simp add: StencilDeriv_loop.simps[of d st w du dv i "GetSizePtr st" t]
          split: sum.splits)
  qed
qed

lemma apply_write_scalar:
  assumes "is_scalar x" and "write_ok x"
  shows "apply_write x t = run_calls ScalarAccumulator (scalar_calls x) t"
proof (cases x)
  case (AddIndex d s w)
  then show ?thesis by (simp add: Index_AddWithWeight_def split: sum.splits)
next
  case (AddStencil d st w)
  then have "stencil_ok st" using assms(2) by simp
  then show ?thesis
    using AddStencil Stencil_loop_calls[of st 0 d w t]
    by (simp add: Index_AddWithWeight_Stencil_def entries_from_0)
next
  case (AddStencilDeriv d st w du dv)
  then show ?thesis using assms(1) by simp
qed

lemma apply_write_deriv:
  assumes "is_deriv x" and "write_ok x"
  shows "apply_write x t = run_calls PointDerivAccumulator (deriv_calls x) t"
proof (cases x)
  case (AddStencilDeriv d st w du dv)
  then have "stencil_ok st" using assms(2) by simp
  then show ?thesis
    using AddStencilDeriv StencilDeriv_loop_calls[of st 0 d w du dv t]
    by (simp add: Index_AddWithWeight_Deriv_def entries_from_0)
qed (use assms(1) in simp_all)

lemma run_scalar:
  "list_all is_scalar ws \<Longrightarrow> list_all write_ok ws \<Longrightarrow>
   run ws t = run_calls ScalarAccumulator (concat (map scalar_calls ws)) t"
proof (induction ws arbitrary: t)
  case Nil
  then show ?case by simp
next
  case (Cons x ws)
  then show ?case
    by (simp add: run_calls_append apply_write_scalar split: sum.splits)
qed

lemma run_deriv:
  "list_all is_deriv ws \<Longrightarrow> list_all write_ok ws \<Longrightarrow>
   run ws t = run_calls PointDerivAccumulator (concat (map deriv_calls ws)) t"
proof (induction ws arbitrary: t)
  case Nil
  then show ?case by simp
next
  case (Cons x ws)
  then show ?case
    by (simp add: run_calls_append apply_write_deriv split: sum.splits)
qed

lemma calls_of_scalar:
  "is_scalar x \<Longrightarrow> map (\<lambda>c. (fst c, fst (snd c))) (scalar_calls x) = calls_of x"
  by (cases x) (simp_all add: comp_def)

lemma calls_of_deriv:
  "is_deriv x \<Longrightarrow> map (\<lambda>c. (fst c, fst (snd c))) (deriv_calls x) = calls_of x"
  by (cases x) (simp_all add: comp_def)

lemma calls_of_scalar_all:
  "list_all is_scalar ws \<Longrightarrow>
   map (\<lambda>c. (fst c, fst (snd c))) (concat (map scalar_calls ws)) = concat (map calls_of ws)"
  by (induction ws) (simp_all add: calls_of_scalar)

lemma calls_of_deriv_all:
  "list_all is_deriv ws \<Longrightarrow>
   map (\<lambda>c. (fst c, fst (snd c))) (concat (map deriv_calls ws)) = concat (map calls_of ws)"
  by (induction ws) (simp_all add: calls_of_deriv)

section \<open>The constructor and the size query\<close>

lemma ctor_loop_ok:
  "0 \<le> i \<Longrightarrow> length (indices t) = nat n \<Longrightarrow> length (sizes t) = nat n \<Longrightarrow>
   length (dests t) = nat n \<Longrightarrow> length (sources t) = nat n \<Longrightarrow> length (weights t) = nat n \<Longrightarrow>
   \<exists>t'. ctor_loop i n t = Inr t'
      \<and> length (indices t') = nat n \<and> length (sizes t') = nat n \<and> length (dests t') = nat n
      \<and> length (sources t') = nat n \<and> length (weights t') = nat n
      \<and> duWeights t' = duWeights t \<and> dvWeights t' = dvWeights t \<and> size' t' = size' t
      \<and> lastOffset t' = lastOffset t \<and> coarseVertCount t' = coarseVertCount t
      \<and> compactWeights t' = compactWeights t
      \<and> (\<forall>j. i \<le> j \<and> j < n \<longrightarrow> indices t' ! nat j = j \<and> sizes t' ! nat j = 1
             \<and> dests t' ! nat j = j \<and> sources t' ! nat j = j \<and> weights t' ! nat j = 1)
      \<and> (\<forall>j. 0 \<le> j \<and> j < i \<longrightarrow> indices t' ! nat j = indices t ! nat j
             \<and> sizes t' ! nat j = sizes t ! nat j \<and> dests t' ! nat j = dests t ! nat j
             \<and> sources t' ! nat j = sources t ! nat j \<and> weights t' ! nat j = weights t ! nat j)"
proof (induction i n t rule: ctor_loop.induct)
  case (1 i n t)
  show ?case
  proof (cases "i < n")
    case False
    then show ?thesis using 1(2-) by (auto simp add: ctor_loop.simps[of i n t])
  next
    case True
    let ?t = "t\<lparr>indices := (indices t)[nat i := i],
                   sizes := (sizes t)[nat i := 1],
                   dests := (dests t)[nat i := i],
                   sources := (sources t)[nat i := i],
                   weights := (weights t)[nat i := 1]\<rparr>"
    have rng: "in_range (indices t) i \<and> in_range (sizes t) i \<and> in_range (dests t) i
            \<and> in_range (sources t) i \<and> in_range (weights t) i"
      using True 1(2-) by (simp add: in_range_def)
    have step: "ctor_loop i n t = ctor_loop (i + 1) n ?t"
      using True rng by (subst ctor_loop.simps) simp
    from 1(1)[OF True rng] 1(2-) obtain t' where
      t': "ctor_loop (i + 1) n ?t = Inr t'" 
      and rest: "length (indices t') = nat n \<and> length (sizes t') = nat n \<and> length (dests t') = nat n
      \<and> length (sources t') = nat n \<and> length (weights t') = nat n
      \<and> duWeights t' = duWeights t \<and> dvWeights t' = dvWeights t \<and> size' t' = size' t
      \<and> lastOffset t' = lastOffset t \<and> coarseVertCount t' = coarseVertCount t
      \<and> compactWeights t' = compactWeights t"
      and hi: "\<forall>j. i + 1 \<le> j \<and> j < n \<longrightarrow> indices t' ! nat j = j \<and> sizes t' ! nat j = 1
             \<and> dests t' ! nat j = j \<and> sources t' ! nat j = j \<and> weights t' ! nat j = 1"
      and lo: "\<forall>j. 0 \<le> j \<and> j < i + 1 \<longrightarrow> indices t' ! nat j = indices ?t ! nat j
             \<and> sizes t' ! nat j = sizes ?t ! nat j \<and> dests t' ! nat j = dests ?t ! nat j
             \<and> sources t' ! nat j = sources ?t ! nat j \<and> weights t' ! nat j = weights ?t ! nat j"
      by auto
    have ati: "indices t' ! nat i = i \<and> sizes t' ! nat i = 1
             \<and> dests t' ! nat i = i \<and> sources t' ! nat i = i \<and> weights t' ! nat i = 1"
      using lo[rule_format, of i] 1(2-) True by simp
    have hi': "\<forall>j. i \<le> j \<and> j < n \<longrightarrow> indices t' ! nat j = j \<and> sizes t' ! nat j = 1
             \<and> dests t' ! nat j = j \<and> sources t' ! nat j = j \<and> weights t' ! nat j = 1"
    proof (intro allI impI)
      fix j assume "i \<le> j \<and> j < n"
      then consider "j = i" | "i + 1 \<le> j \<and> j < n" by linarith
      then show "indices t' ! nat j = j \<and> sizes t' ! nat j = 1
             \<and> dests t' ! nat j = j \<and> sources t' ! nat j = j \<and> weights t' ! nat j = 1"
        using ati hi by cases auto
    qed
    have lo': "\<forall>j. 0 \<le> j \<and> j < i \<longrightarrow> indices t' ! nat j = indices t ! nat j
             \<and> sizes t' ! nat j = sizes t ! nat j \<and> dests t' ! nat j = dests t ! nat j
             \<and> sources t' ! nat j = sources t ! nat j \<and> weights t' ! nat j = weights t ! nat j"
    proof (intro allI impI)
      fix j assume j: "0 \<le> j \<and> j < i"
      then have "nat j \<noteq> nat i" by linarith
      then show "indices t' ! nat j = indices t ! nat j
             \<and> sizes t' ! nat j = sizes t ! nat j \<and> dests t' ! nat j = dests t ! nat j
             \<and> sources t' ! nat j = sources t ! nat j \<and> weights t' ! nat j = weights t ! nat j"
        using lo[rule_format, of j] j by simp
    qed
    show ?thesis using step t' rest hi' lo' by simp
  qed
qed


lemma GetNumVertsInStencil_beyond:
  assumes "sizes t \<noteq> []" and "length (sizes t) < 2 ^ 64" and "length (sizes t) \<le> unat i"
  shows "GetNumVertsInStencil t i = Inr 0"
proof -
  let ?n = "length (sizes t)"
  have pos: "0 < ?n" using assms(1) by simp
  have pos': "1 \<le> ?n" using pos by linarith
  have un: "unat (word_of_nat ?n :: 64 word) = ?n"
    using assms(2) by (simp add: unat_of_nat)
  then have "(word_of_nat ?n :: 64 word) \<noteq> 0"
    using pos by (metis less_numeral_extra(3) unat_0)
  then have "unat (word_of_nat ?n - 1 :: 64 word) = ?n - 1"
    using un by (simp add: unat_minus_one)
  then have "word_of_nat ?n - 1 < i"
    unfolding word_less_nat_alt using assms(3) pos' by linarith
  then show ?thesis by (simp add: GetNumVertsInStencil_def)
qed

lemma GetNumVertsInStencil_within:
  assumes "unat i < length (sizes t)" and "length (sizes t) < 2 ^ 64"
  shows "GetNumVertsInStencil t i = Inr (sizes t ! unat i)"
proof -
  let ?n = "length (sizes t)"
  have pos: "0 < ?n" using assms(1) by linarith
  have pos': "1 \<le> ?n" using pos by linarith
  have un: "unat (word_of_nat ?n :: 64 word) = ?n"
    using assms(2) by (simp add: unat_of_nat)
  then have "(word_of_nat ?n :: 64 word) \<noteq> 0"
    using pos by (metis less_numeral_extra(3) unat_0)
  then have "unat (word_of_nat ?n - 1 :: 64 word) = ?n - 1"
    using un by (simp add: unat_minus_one)
  then have "\<not> word_of_nat ?n - 1 < i"
    unfolding word_less_nat_alt using assms(1) pos' by linarith
  then show ?thesis using assms(1) by (simp add: GetNumVertsInStencil_def)
qed

lemma GetNumVertsInStencil_empty_any:
  "sizes t = [] \<Longrightarrow> GetNumVertsInStencil t i = Inl OutOfBounds"
  by (simp add: GetNumVertsInStencil_def)

text \<open>
  C4. The size query is to return 0 for every destination id at or beyond the populated
  range, the empty \<open>sizes\<close> array included. On a builder constructed without control
  vertex stencils \<open>sizes\<close> is empty, \<open>size() - 1\<close> wraps to the largest \<open>size_t\<close>, the
  guard \<open>stencilIndex > size() - 1\<close> is false for every index, and the query reads
  \<open>sizes[0]\<close> of an empty vector. (For a non-empty \<open>sizes\<close> the query is as claimed:
  \<open>GetNumVertsInStencil_beyond\<close>, \<open>GetNumVertsInStencil_within\<close>.)
\<close>

theorem GetNumVertsInStencil_empty:
  "\<exists>t. (StencilBuilder_new 3 False True :: error + real WeightTable) = Inr t
        \<and> sizes t = [] \<and> GetNumVertsInStencil t 0 = Inl OutOfBounds"
  by (simp add: StencilBuilder_new_def WeightTable_new_def GetNumVertsInStencil_def Let_def)

text \<open>
  C5. Constructed with \<open>generateControlVertexStencils = true\<close> and \<open>coarseVertCount = n > 0\<close>,
  the table holds, before any write, the identity stencil of every coarse vertex
  \<open>i < n\<close>: \<open>offsets[i] = i\<close>, \<open>sizes[i] = 1\<close>, \<open>sources[i] = i\<close>, \<open>weights[i] = 1\<close>; the
  total contribution count is \<open>n\<close>.
\<close>

theorem WeightTable_new_control_stencils:
  assumes "0 < n"
  shows "\<exists>t. (StencilBuilder_new n True c :: error + ('w::{zero,one}) WeightTable) = Inr t
     \<and> GetNumVerticesTotal t = nat n
     \<and> length (indices t) = nat n \<and> length (sizes t) = nat n
     \<and> length (sources t) = nat n \<and> length (weights t) = nat n
     \<and> (\<forall>i. 0 \<le> i \<and> i < n \<longrightarrow>
           indices t ! nat i = i \<and> sizes t ! nat i = 1 \<and> sources t ! nat i = i
           \<and> weights t ! nat i = 1)"
proof -
  let ?t0 = "\<lparr>dests = [], sources = [], weights = [], duWeights = [], dvWeights = [],
                indices = [], sizes = [], size' = 0, lastOffset = 0,
                coarseVertCount = n, compactWeights = c\<rparr> :: 'w WeightTable"
  let ?t1 = "?t0\<lparr>sources := resize n (sources ?t0),
                       weights := resize n (weights ?t0),
                       dests := resize n (dests ?t0),
                       indices := resize n (indices ?t0),
                       sizes := resize n (sizes ?t0)\<rparr>"
  have "\<exists>t'. ctor_loop 0 n ?t1 = Inr t'
      \<and> length (indices t') = nat n \<and> length (sizes t') = nat n \<and> length (dests t') = nat n
      \<and> length (sources t') = nat n \<and> length (weights t') = nat n
      \<and> duWeights t' = duWeights ?t1 \<and> dvWeights t' = dvWeights ?t1 \<and> size' t' = size' ?t1
      \<and> lastOffset t' = lastOffset ?t1 \<and> coarseVertCount t' = coarseVertCount ?t1
      \<and> compactWeights t' = compactWeights ?t1
      \<and> (\<forall>j. 0 \<le> j \<and> j < n \<longrightarrow> indices t' ! nat j = j \<and> sizes t' ! nat j = 1
             \<and> dests t' ! nat j = j \<and> sources t' ! nat j = j \<and> weights t' ! nat j = 1)
      \<and> (\<forall>j. 0 \<le> j \<and> j < 0 \<longrightarrow> indices t' ! nat j = indices ?t1 ! nat j
             \<and> sizes t' ! nat j = sizes ?t1 ! nat j \<and> dests t' ! nat j = dests ?t1 ! nat j
             \<and> sources t' ! nat j = sources ?t1 ! nat j \<and> weights t' ! nat j = weights ?t1 ! nat j)"
    by (rule ctor_loop_ok) (simp_all add: resize_def)
  then obtain t' where t': "ctor_loop 0 n ?t1 = Inr t'"
    and len: "length (indices t') = nat n \<and> length (sizes t') = nat n
      \<and> length (sources t') = nat n \<and> length (weights t') = nat n"
    and vals: "\<forall>j. 0 \<le> j \<and> j < n \<longrightarrow> indices t' ! nat j = j \<and> sizes t' ! nat j = 1
             \<and> dests t' ! nat j = j \<and> sources t' ! nat j = j \<and> weights t' ! nat j = 1"
    by blast
  have "(StencilBuilder_new n True c :: error + 'w WeightTable)
          = Inr (t'\<lparr>size' := int (length (sources t')),
                    lastOffset := int (length (sources t')) - 1\<rparr>)"
    using assms t' by (simp add: StencilBuilder_new_def WeightTable_new_def Let_def)
  then show ?thesis using len vals by (simp add: GetNumVerticesTotal_def)
qed

theorem WeightTable_new_control_stencils_witness:
  "(0::int) < 2 \<and> (\<exists>t. (StencilBuilder_new 2 True True :: error + real WeightTable) = Inr t
     \<and> GetNumVerticesTotal t = 2 \<and> indices t = [0, 1] \<and> sizes t = [1, 1]
     \<and> sources t = [0, 1] \<and> weights t = [1, 1])"
proof -
  have h: "(0::int) < 2" by simp
  obtain t where t: "(StencilBuilder_new 2 True True :: error + real WeightTable) = Inr t"
    and tot: "GetNumVerticesTotal t = nat 2"
    and len: "length (indices t) = nat 2 \<and> length (sizes t) = nat 2
     \<and> length (sources t) = nat 2 \<and> length (weights t) = nat 2"
    and vals: "\<forall>i. 0 \<le> i \<and> i < 2 \<longrightarrow>
           indices t ! nat i = i \<and> sizes t ! nat i = 1 \<and> sources t ! nat i = i
           \<and> weights t ! nat i = 1"
    using WeightTable_new_control_stencils [OF h, of True] by blast
  have two: "\<And>xs::'a list. length xs = nat 2 \<Longrightarrow> xs = [xs ! 0, xs ! 1]"
    by (simp add: list_eq_iff_nth_eq less_Suc_eq numeral_2_eq_2)
  have v0: "indices t ! 0 = 0 \<and> sizes t ! 0 = 1 \<and> sources t ! 0 = 0 \<and> weights t ! 0 = 1"
    using vals[rule_format, of 0] by simp
  have v1: "indices t ! 1 = 1 \<and> sizes t ! 1 = 1 \<and> sources t ! 1 = 1 \<and> weights t ! 1 = 1"
    using vals[rule_format, of 1] by simp
  have "indices t = [0, 1] \<and> sizes t = [1, 1] \<and> sources t = [0, 1] \<and> weights t = [1, 1]"
    using two[of "indices t"] two[of "sizes t"] two[of "sources t"] two[of "weights t"]
      len v0 v1 by simp
  then show ?thesis using t tot by simp
qed

section \<open>Invariants of every run under the contract\<close>

lemma WeightTable_new_plain:
  assumes "0 \<le> n"
  shows "StencilBuilder_new n False c =
     Inr \<lparr>dests = [], sources = [], weights = [], duWeights = [], dvWeights = [],
          indices = [], sizes = [], size' = 0, lastOffset = 0,
          coarseVertCount = n, compactWeights = c\<rparr>"
  using assms by (simp add: StencilBuilder_new_def WeightTable_new_def)

lemma WeightTable_new_negative:
  "n < 0 \<Longrightarrow> StencilBuilder_new n g c = Inl LengthError"
  by (simp add: StencilBuilder_new_def WeightTable_new_def)

lemma WeightTable_new_ctrl:
  assumes "0 \<le> n"
  shows "\<exists>t. (StencilBuilder_new n True c :: error + ('w::{zero,one}) WeightTable) = Inr t
     \<and> length (indices t) = nat n \<and> length (sizes t) = nat n \<and> length (dests t) = nat n
     \<and> length (sources t) = nat n \<and> length (weights t) = nat n
     \<and> duWeights t = [] \<and> dvWeights t = [] \<and> size' t = n \<and> lastOffset t = n - 1
     \<and> coarseVertCount t = n \<and> compactWeights t = c
     \<and> (\<forall>i<nat n. indices t ! i = int i \<and> sizes t ! i = 1 \<and> dests t ! i = int i
           \<and> sources t ! i = int i \<and> weights t ! i = 1)"
proof -
  let ?t0 = "\<lparr>dests = [], sources = [], weights = [], duWeights = [], dvWeights = [],
                indices = [], sizes = [], size' = 0, lastOffset = 0,
                coarseVertCount = n, compactWeights = c\<rparr> :: 'w WeightTable"
  let ?t1 = "?t0\<lparr>sources := resize n (sources ?t0),
                       weights := resize n (weights ?t0),
                       dests := resize n (dests ?t0),
                       indices := resize n (indices ?t0),
                       sizes := resize n (sizes ?t0)\<rparr>"
  have "\<exists>t'. ctor_loop 0 n ?t1 = Inr t'
      \<and> length (indices t') = nat n \<and> length (sizes t') = nat n \<and> length (dests t') = nat n
      \<and> length (sources t') = nat n \<and> length (weights t') = nat n
      \<and> duWeights t' = duWeights ?t1 \<and> dvWeights t' = dvWeights ?t1 \<and> size' t' = size' ?t1
      \<and> lastOffset t' = lastOffset ?t1 \<and> coarseVertCount t' = coarseVertCount ?t1
      \<and> compactWeights t' = compactWeights ?t1
      \<and> (\<forall>j. 0 \<le> j \<and> j < n \<longrightarrow> indices t' ! nat j = j \<and> sizes t' ! nat j = 1
             \<and> dests t' ! nat j = j \<and> sources t' ! nat j = j \<and> weights t' ! nat j = 1)
      \<and> (\<forall>j. 0 \<le> j \<and> j < 0 \<longrightarrow> indices t' ! nat j = indices ?t1 ! nat j
             \<and> sizes t' ! nat j = sizes ?t1 ! nat j \<and> dests t' ! nat j = dests ?t1 ! nat j
             \<and> sources t' ! nat j = sources ?t1 ! nat j \<and> weights t' ! nat j = weights ?t1 ! nat j)"
    by (rule ctor_loop_ok) (simp_all add: resize_def)
  then obtain t' where t': "ctor_loop 0 n ?t1 = Inr t'"
    and len: "length (indices t') = nat n" "length (sizes t') = nat n" "length (dests t') = nat n"
      "length (sources t') = nat n" "length (weights t') = nat n"
    and oth: "duWeights t' = []" "dvWeights t' = []" "coarseVertCount t' = n"
      "compactWeights t' = c"
    and vals: "\<forall>j. 0 \<le> j \<and> j < n \<longrightarrow> indices t' ! nat j = j \<and> sizes t' ! nat j = 1
             \<and> dests t' ! nat j = j \<and> sources t' ! nat j = j \<and> weights t' ! nat j = 1"
    by auto
  have vals': "\<forall>i<nat n. indices t' ! i = int i \<and> sizes t' ! i = 1 \<and> dests t' ! i = int i
           \<and> sources t' ! i = int i \<and> weights t' ! i = 1"
  proof (intro allI impI)
    fix i assume "i < nat n"
    then have "0 \<le> int i \<and> int i < n" by linarith
    then show "indices t' ! i = int i \<and> sizes t' ! i = 1 \<and> dests t' ! i = int i
           \<and> sources t' ! i = int i \<and> weights t' ! i = 1"
      using vals[rule_format, of "int i"] by simp
  qed
  have "(StencilBuilder_new n True c :: error + 'w WeightTable)
          = Inr (t'\<lparr>size' := int (length (sources t')),
                    lastOffset := int (length (sources t')) - 1\<rparr>)"
    using assms t' by (simp add: StencilBuilder_new_def WeightTable_new_def Let_def)
  then show ?thesis using len oth vals' assms by simp
qed

lemma wf_new_ctrl:
  assumes len: "length (indices t) = nat n" "length (sizes t) = nat n" "length (dests t) = nat n"
     "length (sources t) = nat n"
    and oth: "size' t = n" "lastOffset t = n - 1" "coarseVertCount t = n" and n: "0 \<le> n"
    and vals: "\<forall>i<nat n. indices t ! i = int i \<and> sizes t ! i = 1 \<and> dests t ! i = int i
           \<and> sources t ! i = int i"
  shows "wf_table t"
proof -
  have dset: "x \<in> set (dests t) \<Longrightarrow> 0 \<le> x \<and> x < n" for x
    using vals len(3) by (auto simp: in_set_conv_nth)
  have dmem: "i < nat n \<Longrightarrow> int i \<in> set (dests t)" for i
    using vals len(3) by (metis nth_mem)
  have last: "dests t \<noteq> [] \<Longrightarrow> last (dests t) = n - 1 \<and> 0 < n"
  proof -
    assume ne: "dests t \<noteq> []"
    then have pos: "0 < nat n" using len(3) by (cases "dests t") auto
    then have "nat n - 1 < nat n" by simp
    then have "dests t ! (nat n - 1) = int (nat n - 1)" using vals by blast
    then show ?thesis using ne pos len(3) by (simp add: last_conv_nth of_nat_diff)
  qed
  have c1: "coarse_only t" using vals len oth by (auto simp: coarse_only_def)
  have c2: "ranges_ok t" using vals len by (auto simp: ranges_ok_def)
  have c3: "open_ok t"
  proof (cases "dests t = []")
    case True
    then show ?thesis by (simp add: open_ok_def)
  next
    case False
    note l = last[OF False]
    have n1: "nat (n - 1) < nat n" using l by linarith
    have "\<forall>i<length (dests t). nat (lastOffset t) \<le> i \<longrightarrow> dests t ! i = last (dests t)"
    proof (intro allI impI)
      fix i assume "i < length (dests t)" "nat (lastOffset t) \<le> i"
      then have "i < nat n" "int i = n - 1" using len(3) oth(2) l by linarith+
      then show "dests t ! i = last (dests t)" using vals l by simp
    qed
    then show ?thesis
      using False l len oth vals[rule_format, OF n1]
      by (simp add: open_ok_def in_range_def)
  qed
  have c4: "dests_ok t"
    unfolding dests_ok_def
  proof
    fix x assume x: "x \<in> set (dests t)"
    then have b: "0 \<le> x \<and> x < n" by (rule dset)
    then have "nat x < nat n" by linarith
    then have "sizes t ! nat x = 1" using vals by blast
    then show "in_range (sizes t) x \<and> 1 \<le> sizes t ! nat x"
      using b len(2) by (simp add: in_range_def)
  qed
  have c5: "closed_below t"
    unfolding closed_below_def
  proof (intro allI impI)
    fix d assume d: "d < length (sizes t)" "dests t = [] \<or> int d \<noteq> last (dests t)"
    then have dn: "d < nat n" using len(2) by simp
    then have "dests t \<noteq> []" using len(3) by auto
    then have "int d \<noteq> n - 1" using d(2) last by auto
    then show "indices t ! d + sizes t ! d \<le> lastOffset t"
      using vals[rule_format, OF dn] dn oth(2) by simp
  qed
  have c6: "untouched_zero t"
    using dmem len(2) by (auto simp: untouched_zero_def)
  show ?thesis using c1 c2 c3 c4 c5 c6 len oth n by (simp add: wf_table_def)
qed

lemma new_inv:
  assumes "(StencilBuilder_new n g c :: error + ('w::{zero,one}) WeightTable) = Inr t"
  shows "wf_table t" "parallel t" "coarseVertCount t = n" "compactWeights t = c"
    "\<not> g \<Longrightarrow> deriv_parallel t"
proof -
  have n: "0 \<le> n"
  proof (rule ccontr)
    assume "\<not> 0 \<le> n"
    then have "(StencilBuilder_new n g c :: error + 'w WeightTable) = Inl LengthError"
      by (intro WeightTable_new_negative) simp
    then show False using assms by simp
  qed
  have "wf_table t \<and> parallel t \<and> coarseVertCount t = n \<and> compactWeights t = c
     \<and> (\<not> g \<longrightarrow> deriv_parallel t)"
  proof (cases g)
    case False
    have "(StencilBuilder_new n False c :: error + 'w WeightTable) =
       Inr \<lparr>dests = [], sources = [], weights = [], duWeights = [], dvWeights = [],
          indices = [], sizes = [], size' = 0, lastOffset = 0,
          coarseVertCount = n, compactWeights = c\<rparr>"
      by (rule WeightTable_new_plain[OF n])
    then have "t = \<lparr>dests = [], sources = [], weights = [], duWeights = [], dvWeights = [],
          indices = [], sizes = [], size' = 0, lastOffset = 0,
          coarseVertCount = n, compactWeights = c\<rparr>"
      using assms False by simp
    then show ?thesis
      by (simp add: wf_table_def parallel_def deriv_parallel_def coarse_only_def ranges_ok_def
          open_ok_def dests_ok_def closed_below_def untouched_zero_def)
  next
    case True
    obtain t' where t': "(StencilBuilder_new n True c :: error + 'w WeightTable) = Inr t'"
      and len: "length (indices t') = nat n" "length (sizes t') = nat n"
        "length (dests t') = nat n" "length (sources t') = nat n"
      and lw: "length (weights t') = nat n"
      and oth: "size' t' = n" "lastOffset t' = n - 1" "coarseVertCount t' = n"
      and cw: "compactWeights t' = c"
      and vals: "\<forall>i<nat n. indices t' ! i = int i \<and> sizes t' ! i = 1 \<and> dests t' ! i = int i
           \<and> sources t' ! i = int i \<and> weights t' ! i = 1"
      using WeightTable_new_ctrl[OF n, of c] by (metis (no_types, lifting))
    have tt: "t' = t" using assms t' True by simp
    have "wf_table t'" by (rule wf_new_ctrl[OF len oth n]) (use vals in blast)
    moreover have "parallel t'" using len lw oth n by (simp add: parallel_def)
    ultimately show ?thesis using tt oth cw True by simp
  qed
  then show "wf_table t" "parallel t" "coarseVertCount t = n" "compactWeights t = c"
    "\<not> g \<Longrightarrow> deriv_parallel t" by simp_all
qed

lemma wf_coarse_stencils:
  assumes "wf_table t"
  shows "coarse_stencils t"
  unfolding coarse_stencils_def
proof (intro allI impI)
  fix d k assume d: "d < length (sizes t)" and k: "k < nat (sizes t ! d)"
  note g = ranges_okD[OF wf_tableD(4)[OF assms] d]
  have b: "0 \<le> indices t ! d + int k" "indices t ! d + int k < int (length (sources t))"
    using g k by linarith+
  then have "nat (indices t ! d + int k) < length (sources t)" by linarith
  then show "in_range (sources t) (indices t ! d + int k)
          \<and> sources t ! nat (indices t ! d + int k) < coarseVertCount t"
    using b coarse_onlyD[OF wf_tableD(3)[OF assms]] by (simp add: in_range_def)
qed

lemma run_contract_ok:
  assumes new: "(StencilBuilder_new n g c :: error + ('w::{zero,one,plus,times}) WeightTable) = Inr t0"
    and con: "contract n (dests t0) ws"
    and uni: "list_all is_scalar ws \<or> (\<not> g \<and> list_all is_deriv ws)"
  shows "\<exists>t. run ws t0 = Inr t \<and> wf_table t \<and> parallel t \<and> coarseVertCount t = n"
proof -
  note i = new_inv[OF new]
  have ok: "list_all write_ok ws" and sc: "seq_contract n (dests t0) (concat (map calls_of ws))"
    using con by (simp_all add: contract_def)
  from uni show ?thesis
  proof
    assume s: "list_all is_scalar ws"
    have "seq_contract (coarseVertCount t0) (dests t0)
            (map (\<lambda>c. (fst c, fst (snd c))) (concat (map scalar_calls ws)))"
      using sc i(3) calls_of_scalar_all[OF s] by simp
    then show ?thesis
      using run_calls_ok[OF ScalarAccumulator_frame ScalarAccumulator_keeps
          ScalarAccumulator_total i(1,2), of "dests t0" "concat (map scalar_calls ws)"]
        run_scalar[OF s ok, of t0] i(3) by auto
  next
    assume "\<not> g \<and> list_all is_deriv ws"
    then have g: "\<not> g" and s: "list_all is_deriv ws" by simp_all
    have "seq_contract (coarseVertCount t0) (dests t0)
            (map (\<lambda>c. (fst c, fst (snd c))) (concat (map deriv_calls ws)))"
      using sc i(3) calls_of_deriv_all[OF s] by simp
    then show ?thesis
      using run_calls_ok[OF PointDerivAccumulator_frame PointDerivAccumulator_keeps
          PointDerivAccumulator_total i(1,2) i(5)[OF g], of "dests t0"
          "concat (map deriv_calls ws)"]
        run_deriv[OF s ok, of t0] i(3) by auto
  qed
qed

text \<open>
  C1. Under the sequential contract (every destination is new or the one being built, every
  source is coarse or a destination built earlier), a program of scalar writes on any
  constructed table, or of derivative writes on a table constructed without control vertex
  stencils, runs without a failure (the \<open>assert\<close> of \<open>AddWithWeight\<close> included), and in the
  table it leaves every stencil of positive size lies within \<open>sources\<close> and holds coarse
  sources only, whatever the depth of the indirection it was resolved through.
\<close>

theorem coarse_only_closure:
  assumes "(StencilBuilder_new n g c :: error + ('w::{zero,one,plus,times}) WeightTable) = Inr t0"
    and "contract n (dests t0) ws"
    and "list_all is_scalar ws \<or> (\<not> g \<and> list_all is_deriv ws)"
  shows "\<exists>t. run ws t0 = Inr t \<and> coarse_stencils t \<and> coarseVertCount t = n"
  using run_contract_ok[OF assms] wf_coarse_stencils by blast

theorem coarse_only_closure_witness:
  "(StencilBuilder_new 2 False True :: error + real WeightTable) =
      Inr \<lparr>dests = [], sources = [], weights = [], duWeights = [], dvWeights = [],
           indices = [], sizes = [], size' = 0, lastOffset = 0,
           coarseVertCount = 2, compactWeights = True\<rparr>
   \<and> contract 2 []
        [AddIndex 2 0 (1/2), AddIndex 2 1 (1/2), AddIndex 3 2 (1/4), AddIndex 3 1 (3/4),
         AddStencil 4 (Stencil 2 [3, 0] [1/2, 1/2]) 1 :: real write]
   \<and> (\<exists>t. run [AddIndex 2 0 (1/2), AddIndex 2 1 (1/2), AddIndex 3 2 (1/4), AddIndex 3 1 (3/4),
               AddStencil 4 (Stencil 2 [3, 0] [1/2, 1/2]) 1]
              \<lparr>dests = [], sources = [], weights = [], duWeights = [], dvWeights = [],
               indices = [], sizes = [], size' = 0, lastOffset = 0,
               coarseVertCount = 2, compactWeights = True\<rparr> = Inr (t :: real WeightTable)
          \<and> coarse_stencils t \<and> coarseVertCount t = 2)"
proof -
  let ?t0 = "\<lparr>dests = [], sources = [], weights = [], duWeights = [], dvWeights = [],
           indices = [], sizes = [], size' = 0, lastOffset = 0,
           coarseVertCount = 2, compactWeights = True\<rparr> :: real WeightTable"
  let ?ws = "[AddIndex 2 0 (1/2), AddIndex 2 1 (1/2), AddIndex 3 2 (1/4), AddIndex 3 1 (3/4),
         AddStencil 4 (Stencil 2 [3, 0] [1/2, 1/2]) 1 :: real write]"
  have h1: "(StencilBuilder_new 2 False True :: error + real WeightTable) = Inr ?t0"
    by (simp add: StencilBuilder_new_def WeightTable_new_def)
  have h2: "contract 2 (dests ?t0) ?ws"
    by (simp add: contract_def stencil_ok_def stencil_entries_def)
  have h3: "list_all is_scalar ?ws \<or> (\<not> False \<and> list_all is_deriv ?ws)"
    by simp
  show ?thesis
    using h1 h2 coarse_only_closure [OF h1 h2 h3] by simp
qed

section \<open>Parallel arrays\<close>

lemma acc_keeps_True: "acc_keeps acc (\<lambda>t. True)"
  by (simp add: acc_keeps_def)

lemma open_stencil_frame:
  assumes "open_stencil d t = Inr t1"
  shows "dests t1 = dests t" "sources t1 = sources t" "weights t1 = weights t"
    "duWeights t1 = duWeights t" "dvWeights t1 = dvWeights t" "size' t1 = size' t"
  using assms by (auto simp: open_stencil_def Let_def split: if_splits)

lemma add_result_form:
  assumes "add acc s d w t = Inr t'"
  shows "\<exists>t1. t' = PushBack acc w (new_entry s d t1) \<and> dests t1 = dests t
     \<and> sources t1 = sources t \<and> weights t1 = weights t \<and> duWeights t1 = duWeights t
     \<and> dvWeights t1 = dvWeights t \<and> size' t1 = size' t"
proof (cases "dests t = [] \<or> d \<noteq> last (dests t)")
  case True
  then obtain t1 where t1: "open_stencil d t = Inr t1"
    and r: "t' = PushBack acc w (new_entry s d t1)"
    using assms by (auto simp: add_def new_entry_def split: sum.splits if_splits)
  show ?thesis using r open_stencil_frame[OF t1] by blast
next
  case False
  then have "t' = PushBack acc w (new_entry s d t)"
    using assms by (auto simp: add_def new_entry_def split: if_splits)
  then show ?thesis by blast
qed

lemma add_keeps:
  assumes fr: "acc_frame acc" and ke: "acc_keeps acc ext"
    and par: "parallel t" and ext: "ext t" and r: "add acc s d w t = Inr t'"
  shows "parallel t' \<and> ext t'"
proof -
  obtain t1 where t': "t' = PushBack acc w (new_entry s d t1)" and f: "dests t1 = dests t"
     "sources t1 = sources t" "weights t1 = weights t" "duWeights t1 = duWeights t"
     "dvWeights t1 = dvWeights t" "size' t1 = size' t"
    using add_result_form[OF r] by blast
  show ?thesis
    using parallel_PushBack_new_entry[OF fr f(1,2,3,6) par]
      ext_PushBack_new_entry[OF ke f(3,4,5) ext] t' by simp
qed

lemma Add_keeps:
  assumes fr: "acc_frame acc" and ke: "acc_keeps acc ext"
    and par: "parallel t" and ext: "ext t" and r: "Add acc i w t = Inr t'"
  shows "parallel t' \<and> ext t'"
  using parallel_struct[OF acc_frameD(3,4)[OF fr r] par] acc_keepsD(2)[OF ke r ext] by simp

lemma merge_keeps:
  assumes fr: "acc_frame acc" and ke: "acc_keeps acc ext"
    and par: "parallel t" and ext: "ext t" and r: "merge acc s d a b lo n t = Inr t'"
  shows "parallel t' \<and> ext t'"
proof -
  from r consider i where "Add acc i (a * b) t = Inr t'" | "add acc s d (a * b) t = Inr t'"
    by (auto simp: merge_def split: if_splits sum.splits option.splits)
  then show ?thesis
    using Add_keeps[OF fr ke par ext] add_keeps[OF fr ke par ext] by cases blast+
qed

lemma AddWithWeight_loop_keeps:
  assumes fr: "acc_frame acc" and ke: "acc_keeps acc ext"
  shows "parallel t \<Longrightarrow> ext t \<Longrightarrow> AddWithWeight_loop acc d w i stop t = Inr t' \<Longrightarrow>
         parallel t' \<and> ext t'"
proof (induction "nat (stop - i)" arbitrary: i t)
  case 0
  then have "\<not> i < stop" by simp
  then show ?case using 0 by (simp add: AddWithWeight_loop.simps[of acc d w i stop t])
next
  case (Suc m)
  then have lt: "i < stop" by linarith
  have m: "m = nat (stop - (i + 1))" using Suc.hyps(2) by linarith
  from Suc.prems(3) lt obtain x t1 where
    t1: "merge acc (sources t ! nat i) d x w (lastOffset t) (size' t) t = Inr t1"
    and rest: "AddWithWeight_loop acc d w (i + 1) stop t1 = Inr t'"
    by (auto simp: AddWithWeight_loop.simps[of acc d w i stop t] split: if_splits sum.splits)
  have "parallel t1 \<and> ext t1" by (rule merge_keeps[OF fr ke Suc.prems(1,2) t1])
  then show ?case using Suc.hyps(1)[OF m _ _ rest] by blast
qed

lemma AddWithWeight_keeps:
  assumes fr: "acc_frame acc" and ke: "acc_keeps acc ext"
    and par: "parallel t" and ext: "ext t" and r: "AddWithWeight acc s d w t = Inr t'"
  shows "parallel t' \<and> ext t'"
proof (cases "s < coarseVertCount t")
  case True
  then show ?thesis using r merge_keeps[OF fr ke par ext] by (simp add: AddWithWeight_def)
next
  case False
  then show ?thesis
    using r AddWithWeight_loop_keeps[OF fr ke par ext]
    by (auto simp: AddWithWeight_def Let_def split: if_splits)
qed

lemma Stencil_loop_keeps:
  "parallel t \<Longrightarrow> Stencil_loop d st w i n t = Inr t' \<Longrightarrow> parallel t'"
proof (induction "nat (n - i)" arbitrary: i t)
  case 0
  then have "\<not> i < n" by simp
  then show ?case using 0 by (simp add: Stencil_loop.simps[of d st w i n t])
next
  case (Suc m)
  then have lt: "i < n" by linarith
  have m: "m = nat (n - (i + 1))" using Suc.hyps(2) by linarith
  from Suc.prems(2) lt consider "Stencil_loop d st w (i + 1) n t = Inr t'"
    | s x t1 where "AddWithWeight ScalarAccumulator s d x t = Inr t1"
        "Stencil_loop d st w (i + 1) n t1 = Inr t'"
    by (auto simp: Stencil_loop.simps[of d st w i n t] Let_def split: if_splits sum.splits)
  then show ?case
  proof cases
    case 1
    then show ?thesis using Suc.hyps(1)[OF m Suc.prems(1)] by blast
  next
    case 2
    have "parallel t1"
      using AddWithWeight_keeps[OF ScalarAccumulator_frame acc_keeps_True Suc.prems(1) _ 2(1)]
      by simp
    then show ?thesis using Suc.hyps(1)[OF m _ 2(2)] by blast
  qed
qed

lemma StencilDeriv_loop_keeps:
  assumes ke: "acc_keeps PointDerivAccumulator ext"
  shows "parallel t \<Longrightarrow> ext t \<Longrightarrow> StencilDeriv_loop d st w du dv i n t = Inr t' \<Longrightarrow>
         parallel t' \<and> ext t'"
proof (induction "nat (n - i)" arbitrary: i t)
  case 0
  then have "\<not> i < n" by simp
  then show ?case using 0 by (simp add: StencilDeriv_loop.simps[of d st w du dv i n t])
next
  case (Suc m)
  then have lt: "i < n" by linarith
  have m: "m = nat (n - (i + 1))" using Suc.hyps(2) by linarith
  from Suc.prems(3) lt consider "StencilDeriv_loop d st w du dv (i + 1) n t = Inr t'"
    | s x t1 where "AddWithWeight PointDerivAccumulator s d x t = Inr t1"
        "StencilDeriv_loop d st w du dv (i + 1) n t1 = Inr t'"
    by (auto simp: StencilDeriv_loop.simps[of d st w du dv i n t] Let_def
        split: if_splits sum.splits)
  then show ?case
  proof cases
    case 1
    then show ?thesis using Suc.hyps(1)[OF m Suc.prems(1,2)] by blast
  next
    case 2
    have "parallel t1 \<and> ext t1"
      by (rule AddWithWeight_keeps[OF PointDerivAccumulator_frame ke Suc.prems(1,2) 2(1)])
    then show ?thesis using Suc.hyps(1)[OF m _ _ 2(2)] by blast
  qed
qed

lemma apply_write_parallel:
  assumes "parallel t" and "apply_write x t = Inr t'"
  shows "parallel t'"
proof (cases x)
  case (AddIndex d s w)
  then show ?thesis
    using assms AddWithWeight_keeps[OF ScalarAccumulator_frame acc_keeps_True assms(1)]
    by (auto simp: Index_AddWithWeight_def split: if_splits)
next
  case (AddStencil d st w)
  then show ?thesis
    using assms Stencil_loop_keeps[OF assms(1)]
    by (auto simp: Index_AddWithWeight_Stencil_def split: if_splits)
next
  case (AddStencilDeriv d st w du dv)
  then show ?thesis
    using assms StencilDeriv_loop_keeps[OF acc_keeps_True assms(1)]
    by (auto simp: Index_AddWithWeight_Deriv_def split: if_splits)
qed

lemma apply_write_deriv_parallel:
  assumes "is_deriv x" and "parallel t" and "deriv_parallel t" and "apply_write x t = Inr t'"
  shows "deriv_parallel t'"
proof (cases x)
  case (AddStencilDeriv d st w du dv)
  then show ?thesis
    using assms StencilDeriv_loop_keeps[OF PointDerivAccumulator_keeps assms(2,3)]
    by (auto simp: Index_AddWithWeight_Deriv_def split: if_splits)
qed (use assms(1) in simp_all)

lemma run_parallel:
  "parallel t \<Longrightarrow> run ws t = Inr t' \<Longrightarrow> parallel t'"
proof (induction ws arbitrary: t)
  case Nil
  then show ?case by simp
next
  case (Cons x ws)
  then show ?case by (auto split: sum.splits dest: apply_write_parallel)
qed

lemma run_deriv_parallel:
  "list_all is_deriv ws \<Longrightarrow> parallel t \<Longrightarrow> deriv_parallel t \<Longrightarrow> run ws t = Inr t' \<Longrightarrow>
   deriv_parallel t'"
proof (induction ws arbitrary: t)
  case Nil
  then show ?case by simp
next
  case (Cons x ws)
  from Cons.prems obtain t1 where t1: "apply_write x t = Inr t1" and r: "run ws t1 = Inr t'"
    by (auto split: sum.splits)
  have "parallel t1" by (rule apply_write_parallel[OF Cons.prems(2) t1])
  moreover have "deriv_parallel t1"
    using apply_write_deriv_parallel[OF _ Cons.prems(2,3) t1] Cons.prems(1) by simp
  ultimately show ?case using Cons.IH[OF _ _ _ r] Cons.prems(1) by simp
qed

text \<open>The arrays are parallel after every construction and every run that returns.\<close>

lemma arrays_stay_parallel:
  assumes "(StencilBuilder_new n g c :: error + ('w::{zero,one,plus,times}) WeightTable) = Inr t0"
    and "run ws t0 = Inr t"
  shows "length (dests t) = length (sources t) \<and> length (weights t) = length (sources t)
       \<and> GetNumVerticesTotal t = length (sources t) \<and> size' t = int (GetNumVerticesTotal t)
       \<and> (\<not> g \<and> list_all is_deriv ws \<longrightarrow>
             length (duWeights t) = length (sources t)
           \<and> length (dvWeights t) = length (sources t))"
proof -
  note i = new_inv[OF assms(1)]
  have p: "parallel t" by (rule run_parallel[OF i(2) assms(2)])
  have "deriv_parallel t" if "\<not> g" "list_all is_deriv ws"
    using run_deriv_parallel[OF that(2) i(2) i(5)[OF that(1)] assms(2)] .
  then show ?thesis using p by (auto simp: parallel_def deriv_parallel_def GetNumVerticesTotal_def)
qed

text \<open>
  C10. The arrays \<open>dests\<close>, \<open>sources\<close> and \<open>weights\<close> are parallel, and their length is the
  count that \<open>GetNumVerticesTotal\<close> returns, after every construction and every run
  (\<open>arrays_stay_parallel\<close>); so are \<open>duWeights\<close> and \<open>dvWeights\<close> when the table was
  constructed without control vertex stencils and only the derivative entry point was
  used. The constructor with control vertex stencils, however, fills \<open>weights\<close> and leaves
  \<open>duWeights\<close> and \<open>dvWeights\<close> empty: after \<open>StencilBuilder(1, true, true)\<close> the weights
  array has one element and the derivative arrays none, one derivative call leaves 2
  against 1, and a second one accumulates at index 1 of \<open>duWeights\<close>, which has one
  element.
\<close>

theorem control_stencils_leave_derivative_arrays_short:
  "(StencilBuilder_new 1 True True :: error + real WeightTable) =
      Inr \<lparr>dests = [0], sources = [0], weights = [1], duWeights = [], dvWeights = [],
           indices = [0], sizes = [1], size' = 1, lastOffset = 0,
           coarseVertCount = 1, compactWeights = True\<rparr>
   \<and> run [AddStencilDeriv 1 (Stencil 1 [0] [1]) 1 0 0]
         \<lparr>dests = [0], sources = [0], weights = [1], duWeights = [], dvWeights = [],
          indices = [0], sizes = [1], size' = 1, lastOffset = 0,
          coarseVertCount = 1, compactWeights = True\<rparr> =
      Inr \<lparr>dests = [0, 1], sources = [0, 0], weights = [1, 1 :: real], duWeights = [0],
           dvWeights = [0], indices = [0, 1], sizes = [1, 1], size' = 2, lastOffset = 1,
           coarseVertCount = 1, compactWeights = True\<rparr>
   \<and> run [AddStencilDeriv 1 (Stencil 1 [0] [1]) 1 0 0,
           AddStencilDeriv 1 (Stencil 1 [0] [1]) 1 0 0]
         \<lparr>dests = [0], sources = [0], weights = [1 :: real], duWeights = [], dvWeights = [],
          indices = [0], sizes = [1], size' = 1, lastOffset = 0,
          coarseVertCount = 1, compactWeights = True\<rparr> = Inl OutOfBounds"
  by code_simp

section \<open>Starting a stencil, growing the index arrays, dropped calls\<close>

lemma PushBack_Scalar:
  "PushBack ScalarAccumulator w t = t\<lparr>weights := weights t @ [w]\<rparr>"
  by (simp add: ScalarAccumulator_def PointDerivWeight1_def)

lemma PushBack_PointDeriv:
  "PushBack PointDerivAccumulator pd t =
     t\<lparr>weights := weights t @ [pw pd], duWeights := duWeights t @ [duw pd],
       dvWeights := dvWeights t @ [dvw pd]\<rparr>"
  by (simp add: PointDerivAccumulator_def)

lemma new_stencil_post_fresh:
  assumes d: "0 \<le> d" and leq: "length (indices t) = length (sizes t)"
    and st: "struct t' = struct (new_entry src d (header d t))"
    and w: "weights t' = weights t @ [x]"
  shows "new_stencil_post t d src t'"
proof -
  note f = fresh_fields[OF d leq, where s = src]
  note e = struct_eqD[OF st]
  have nd: "nat d < max (length (sizes t)) (nat d + 1)" by simp
  show ?thesis
    using f(12)[OF nd] f(13)[OF nd] w
    by (simp add: new_stencil_post_def e f(1,2) GetNumVerticesTotal_def)
qed

text \<open>
  C8. When \<open>add\<close> appends a contribution for a destination \<open>d\<close> that is not the destination
  of the last entry (or the table is empty), it first sets \<open>offsets[d]\<close> to the current
  length of the flat arrays and \<open>sizes[d]\<close> to 0, whatever \<open>d\<close> held before; after the append
  the earlier entries are all still in the flat arrays and counted by
  \<open>GetNumVerticesTotal\<close>, and none of them is in the range of \<open>offsets[d]\<close>, \<open>sizes[d]\<close>.
\<close>

theorem add_starts_new_stencil:
  assumes "0 \<le> d" and "dests t = [] \<or> d \<noteq> last (dests t)"
    and "length (indices t) = length (sizes t)"
  shows "(\<exists>t0. open_stencil d t = Inr t0
            \<and> indices t0 ! nat d = int (length (sources t)) \<and> sizes t0 ! nat d = 0
            \<and> dests t0 = dests t \<and> sources t0 = sources t \<and> weights t0 = weights t)
       \<and> (\<exists>t'. add ScalarAccumulator src d w t = Inr t'
            \<and> new_stencil_post t d src t' \<and> weights t' = weights t @ [w])
       \<and> (\<exists>t'. add PointDerivAccumulator src d pd t = Inr t'
            \<and> new_stencil_post t d src t' \<and> weights t' = weights t @ [pw pd])"
proof -
  have no: "\<not> is_open t d" using assms(2) by (auto simp: is_open_def)
  have nd: "nat d < max (length (sizes t)) (nat d + 1)" by simp
  have a: "\<exists>t0. open_stencil d t = Inr t0
            \<and> indices t0 ! nat d = int (length (sources t)) \<and> sizes t0 ! nat d = 0
            \<and> dests t0 = dests t \<and> sources t0 = sources t \<and> weights t0 = weights t"
    using open_stencil_eq[OF assms(1,3)] header_nth[OF assms(1,3) nd]
    by (simp add: header_frame)
  let ?e = "new_entry src d (header d t)"
  have b: "add ScalarAccumulator src d w t = Inr (PushBack ScalarAccumulator w ?e)"
    by (rule add_fresh_eq[OF assms(1,3) no])
  have b1: "new_stencil_post t d src (PushBack ScalarAccumulator w ?e)"
    by (rule new_stencil_post_fresh[OF assms(1,3), where x = w])
      (simp_all add: PushBack_Scalar struct_def fresh_fields[OF assms(1,3)])
  have b2: "weights (PushBack ScalarAccumulator w ?e) = weights t @ [w]"
    by (simp add: PushBack_Scalar fresh_fields[OF assms(1,3)])
  have c: "add PointDerivAccumulator src d pd t = Inr (PushBack PointDerivAccumulator pd ?e)"
    by (rule add_fresh_eq[OF assms(1,3) no])
  have c1: "new_stencil_post t d src (PushBack PointDerivAccumulator pd ?e)"
    by (rule new_stencil_post_fresh[OF assms(1,3), where x = "pw pd"])
      (simp_all add: PushBack_PointDeriv struct_def fresh_fields[OF assms(1,3)])
  have c2: "weights (PushBack PointDerivAccumulator pd ?e) = weights t @ [pw pd]"
    by (simp add: PushBack_PointDeriv fresh_fields[OF assms(1,3)])
  show ?thesis using a b b1 b2 c c1 c2 by simp
qed

theorem add_starts_new_stencil_witness:
  "(0::int) \<le> 0 \<and> (dests example_table = [] \<or> 0 \<noteq> last (dests example_table))
   \<and> length (indices example_table) = length (sizes example_table)
   \<and> sizes example_table ! 0 = 1 \<and> indices example_table ! 0 = 0
   \<and> (\<exists>t0. open_stencil 0 example_table = Inr t0
            \<and> indices t0 ! nat 0 = int (length (sources example_table)) \<and> sizes t0 ! nat 0 = 0
            \<and> dests t0 = dests example_table \<and> sources t0 = sources example_table
            \<and> weights t0 = weights example_table)
   \<and> (\<exists>t'. add ScalarAccumulator 1 0 (1/4) example_table = Inr t'
            \<and> new_stencil_post example_table 0 1 t'
            \<and> weights t' = weights example_table @ [1/4])"
proof -
  have h1: "(0::int) \<le> 0" by simp
  have h2: "dests example_table = [] \<or> 0 \<noteq> last (dests example_table)"
    by (simp add: example_table_def)
  have h3: "length (indices example_table) = length (sizes example_table)"
    by (simp add: example_table_def)
  have h4: "sizes example_table ! 0 = 1 \<and> indices example_table ! 0 = 0"
    by (simp add: example_table_def)
  show ?thesis
    using h1 h2 h3 h4
      add_starts_new_stencil [OF h1 h2 h3, where src = 1 and w = "1/4"
        and pd = "PointDerivWeight 0 0 0"]
    by blast
qed

lemma sparse_post_fresh:
  assumes wf_table: "wf_table t" and d: "int (length (sizes t)) \<le> d"
    and st: "struct t' = struct (new_entry src d (header d t))"
  shows "sparse_post d t'"
proof -
  have d0: "0 \<le> d" using d by linarith
  have leq: "length (indices t) = length (sizes t)"
    using wf_tableD(4)[OF wf_table] by (simp add: ranges_ok_def)
  note f = fresh_fields[OF d0 leq, where s = src]
  note e = struct_eqD[OF st]
  have mx: "max (length (sizes t)) (nat d + 1) = nat d + 1" using d by linarith
  have "sizes t' ! j = 0 \<and> indices t' ! j = 0" if j: "j < nat d" "int j \<notin> set (dests t')" for j
  proof -
    have jm: "j < max (length (sizes t)) (nat d + 1)" using j(1) by simp
    have nj: "int j \<notin> set (dests t)" using j(2) by (simp add: e f(1))
    have z: "j < length (sizes t) \<Longrightarrow> sizes t ! j = 0 \<and> indices t ! j = 0"
      using wf_tableD(8)[OF wf_table] nj by (simp add: untouched_zero_def)
    show ?thesis using f(12)[OF jm] f(13)[OF jm] j(1) z by (simp add: e)
  qed
  then show ?thesis using mx by (simp add: sparse_post_def e f(10,11))
qed

text \<open>
  C9. In a table that satisfies the invariant \<open>wf_table\<close> (every table a run reaches does:
  \<open>new_inv\<close>, \<open>run_calls_ok\<close>), a contribution for a destination \<open>d\<close> at or beyond the length
  of \<open>offsets\<close>/\<open>sizes\<close> grows both arrays to length \<open>d + 1\<close>, and afterwards every
  destination id below \<open>d\<close> that is not a contribution target has size 0 and offset 0.
\<close>

theorem add_grows_offsets_and_sizes:
  assumes "wf_table t" and "int (length (sizes t)) \<le> d"
  shows "(\<exists>t'. add ScalarAccumulator src d w t = Inr t' \<and> sparse_post d t')
       \<and> (\<exists>t'. add PointDerivAccumulator src d pd t = Inr t' \<and> sparse_post d t')"
proof -
  have d0: "0 \<le> d" using assms(2) by linarith
  have leq: "length (indices t) = length (sizes t)"
    using wf_tableD(4)[OF assms(1)] by (simp add: ranges_ok_def)
  have no: "\<not> is_open t d"
  proof
    assume "is_open t d"
    then have "dests t \<noteq> []" "last (dests t) = d" by (simp_all add: is_open_def)
    then have "in_range (sizes t) d" using open_okD(3)[OF assms(1)] by auto
    then show False using assms(2) by (simp add: in_range_def)
  qed
  let ?e = "new_entry src d (header d t)"
  have b: "add ScalarAccumulator src d w t = Inr (PushBack ScalarAccumulator w ?e)"
    by (rule add_fresh_eq[OF d0 leq no])
  have b1: "sparse_post d (PushBack ScalarAccumulator w ?e)"
    by (rule sparse_post_fresh[OF assms]) (simp add: PushBack_Scalar struct_def)
  have c: "add PointDerivAccumulator src d pd t = Inr (PushBack PointDerivAccumulator pd ?e)"
    by (rule add_fresh_eq[OF d0 leq no])
  have c1: "sparse_post d (PushBack PointDerivAccumulator pd ?e)"
    by (rule sparse_post_fresh[OF assms]) (simp add: PushBack_PointDeriv struct_def)
  show ?thesis using b b1 c c1 by simp
qed

theorem add_grows_offsets_and_sizes_witness:
  "wf_table example_table \<and> int (length (sizes example_table)) \<le> 5
   \<and> (\<exists>t'. add ScalarAccumulator 0 5 (1/4) example_table = Inr t' \<and> sparse_post 5 t')
   \<and> (\<exists>t'. add PointDerivAccumulator 0 5 (PointDerivWeight 1 0 0) example_table = Inr t'
          \<and> sparse_post 5 t')"
proof -
  have h1: "wf_table example_table" by code_simp
  have h2: "int (length (sizes example_table)) \<le> 5" by (simp add: example_table_def)
  show ?thesis
    using h1 h2
      add_grows_offsets_and_sizes [OF h1 h2, where src = 0 and w = "1/4"
        and pd = "PointDerivWeight 1 0 0"]
    by blast
qed

text \<open>
  C6. A facade call with weight 0 (scalar variants), or with weight, du and dv all 0
  (derivative variant), returns the table it was given: no array, size or count changes.
\<close>

theorem zero_weight_is_dropped:
  "Index_AddWithWeight dest src 0 t = Inr t
   \<and> Index_AddWithWeight_Stencil dest st 0 t = Inr t
   \<and> Index_AddWithWeight_Deriv dest st 0 0 0 t = Inr t"
  by (simp add: Index_AddWithWeight_def Index_AddWithWeight_Stencil_def
      Index_AddWithWeight_Deriv_def)

section \<open>Compaction\<close>

lemma add_append:
  assumes wf_table: "wf_table t" and d: "0 \<le> d"
  shows "\<exists>e. add acc s d x t = Inr (PushBack acc x e)
     \<and> weights e = weights t \<and> duWeights e = duWeights t \<and> dvWeights e = dvWeights t
     \<and> sources e = sources t @ [s] \<and> dests e = dests t @ [d]
     \<and> sizes e ! nat d = open_size t d + 1
     \<and> lastOffset e = (if is_open t d then lastOffset t else int (length (sources t)))
     \<and> compactWeights e = compactWeights t \<and> coarseVertCount e = coarseVertCount t"
proof (cases "is_open t d")
  case True
  then have ne: "dests t \<noteq> []" and la: "last (dests t) = d" by (simp_all add: is_open_def)
  have rng: "in_range (sizes t) d" using open_okD(3)[OF wf_table ne] la by simp
  then have nd: "nat d < length (sizes t)" unfolding in_range_def by linarith
  show ?thesis
    using add_open_eq[OF True rng, of acc s x] True nd
    by (intro exI[of _ "new_entry s d t"]) (simp add: open_fields open_size_def)
next
  case False
  have leq: "length (indices t) = length (sizes t)"
    using wf_tableD(4)[OF wf_table] by (simp add: ranges_ok_def)
  note f = fresh_fields[OF d leq, where s = s]
  have nd: "nat d < max (length (sizes t)) (nat d + 1)" by simp
  show ?thesis
    using add_fresh_eq[OF d leq False, of acc s x] False f(13)[OF nd]
    by (intro exI[of _ "new_entry s d (header d t)"]) (simp add: f(1-9) open_size_def)
qed

lemma find_append_list:
  "find P (xs @ ys) = (case find P xs of None \<Rightarrow> find P ys | Some x \<Rightarrow> Some x)"
  by (induction xs) simp_all

lemma scan_hit_last:
  assumes src: "sources t1 = sources t @ [s]"
    and lo: "nat (lastOffset t1) \<le> length (sources t)"
    and none: "\<forall>j. nat (lastOffset t1) \<le> j \<and> j < length (sources t) \<longrightarrow> sources t ! j \<noteq> s"
  shows "scan_hit t1 s = Some (length (sources t))"
proof -
  let ?lo = "nat (lastOffset t1)" and ?n = "length (sources t)"
  have up: "[?lo..<length (sources t1)] = [?lo..<?n] @ [?n]" using lo src by simp
  have "find (\<lambda>k. sources t1 ! k = s) [?lo..<?n] = None"
    using none src by (auto simp: find_None_iff nth_append)
  then show ?thesis unfolding scan_hit_def up by (simp add: find_append_list src)
qed

lemma Add_Scalar:
  "in_range (weights t) i \<Longrightarrow>
   Add ScalarAccumulator i w t = Inr (t\<lparr>weights := (weights t)[nat i := weights t ! nat i + w]\<rparr>)"
  by (simp add: ScalarAccumulator_def)

lemma Index_AddWithWeight_coarse:
  assumes "wf_table t" and "s < coarseVertCount t" and "w \<noteq> 0"
  shows "Index_AddWithWeight d s w t =
     (if compactWeights t \<and> is_open t d then
        (case scan_hit t s of
           Some k \<Rightarrow> Add ScalarAccumulator (int k) (w * 1) t
         | None \<Rightarrow> add ScalarAccumulator s d (w * 1) t)
      else add ScalarAccumulator s d (w * 1) t)"
  using assms(2,3) merge_eq[OF assms(1), of ScalarAccumulator s d w 1]
  by (simp add: Index_AddWithWeight_def AddWithWeight_def)

text \<open>
  C3. On a table that satisfies the invariant, two successive scalar contributions of the
  same coarse source \<open>s\<close>, with nonzero weights \<open>w1\<close> and \<open>w2\<close>, to the destination \<open>d\<close>
  (new, or open and not yet holding \<open>s\<close>): with compaction they leave one new entry for
  \<open>s\<close>, of weight \<open>w1 + w2\<close>, and the size of the stencil grows by 1; without compaction
  they leave two entries, of weights \<open>w1\<close> and \<open>w2\<close>, and the size grows by 2. The engine
  multiplies each weight by the factor 1.0, which leaves a \<open>float\<close> as it is: the two
  hypotheses \<open>w * 1 = w\<close>.
\<close>

theorem compaction_of_repeated_source:
  fixes t :: "('w::{zero,one,plus,times}) WeightTable"
  assumes "wf_table t" and "parallel t" and "0 \<le> d" and "s < coarseVertCount t"
    and "w1 \<noteq> 0" and "w2 \<noteq> 0" and "w1 * 1 = w1" and "w2 * 1 = w2"
  shows "(compactWeights t \<and> (is_open t d \<longrightarrow> scan_hit t s = None) \<longrightarrow>
            (\<exists>t1 t2. Index_AddWithWeight d s w1 t = Inr t1
                \<and> Index_AddWithWeight d s w2 t1 = Inr t2
                \<and> sources t2 = sources t @ [s] \<and> weights t2 = weights t @ [w1 + w2]
                \<and> sizes t2 ! nat d = open_size t d + 1))
       \<and> (\<not> compactWeights t \<longrightarrow>
            (\<exists>t1 t2. Index_AddWithWeight d s w1 t = Inr t1
                \<and> Index_AddWithWeight d s w2 t1 = Inr t2
                \<and> sources t2 = sources t @ [s, s] \<and> weights t2 = weights t @ [w1, w2]
                \<and> sizes t2 ! nat d = open_size t d + 2))"
proof -
  let ?A = ScalarAccumulator
  obtain e where e: "add ?A s d w1 t = Inr (PushBack ?A w1 e)"
    "weights e = weights t" "sources e = sources t @ [s]" "dests e = dests t @ [d]"
    "sizes e ! nat d = open_size t d + 1"
    "lastOffset e = (if is_open t d then lastOffset t else int (length (sources t)))"
    "compactWeights e = compactWeights t" "coarseVertCount e = coarseVertCount t"
    using add_append[OF assms(1,3), of ?A s w1] by blast
  let ?t1 = "PushBack ?A w1 e"
  have t1f: "sources ?t1 = sources t @ [s]" "weights ?t1 = weights t @ [w1]"
    "dests ?t1 = dests t @ [d]" "sizes ?t1 ! nat d = open_size t d + 1"
    "lastOffset ?t1 = (if is_open t d then lastOffset t else int (length (sources t)))"
    "compactWeights ?t1 = compactWeights t" "coarseVertCount ?t1 = coarseVertCount t"
    using e by (simp_all add: PushBack_Scalar)
  obtain t1' where "add ?A s d w1 t = Inr t1'" and sp: "step_post (\<lambda>t. True) t d t1'"
    using add_ok[OF ScalarAccumulator_frame ScalarAccumulator_keeps assms(1,2) _ assms(3,4),
        of w1] by blast
  then have sp1: "wf_table ?t1" "parallel ?t1" "is_open ?t1 d"
    using e(1) by (simp_all add: step_post_def)
  have s1: "s < coarseVertCount ?t1" using assms(4) t1f(7) by simp
  have len: "length (weights t) = length (sources t)" using parallelD(2)[OF assms(2)] .
  have first_append: "Index_AddWithWeight d s w1 t = Inr ?t1"
    if "compactWeights t \<longrightarrow> is_open t d \<longrightarrow> scan_hit t s = None"
    using that e(1) assms(7)
    by (auto simp: Index_AddWithWeight_coarse[OF assms(1,4,5)])
  have compact: "\<exists>t1 t2. Index_AddWithWeight d s w1 t = Inr t1
                \<and> Index_AddWithWeight d s w2 t1 = Inr t2
                \<and> sources t2 = sources t @ [s] \<and> weights t2 = weights t @ [w1 + w2]
                \<and> sizes t2 ! nat d = open_size t d + 1"
    if c: "compactWeights t" and fresh: "is_open t d \<longrightarrow> scan_hit t s = None"
  proof -
    have a1: "Index_AddWithWeight d s w1 t = Inr ?t1" using first_append fresh by blast
    have lo: "nat (lastOffset ?t1) \<le> length (sources t)"
    proof (cases "is_open t d")
      case True
      then have "dests t \<noteq> []" by (simp add: is_open_def)
      then show ?thesis using open_okD(7)[OF assms(1)] t1f(5) True by simp
    next
      case False
      then show ?thesis using t1f(5) by simp
    qed
    have none: "\<forall>j. nat (lastOffset ?t1) \<le> j \<and> j < length (sources t) \<longrightarrow> sources t ! j \<noteq> s"
    proof (cases "is_open t d")
      case True
      then show ?thesis using scan_hit_None[of t s] fresh t1f(5) by simp
    next
      case False
      then show ?thesis using t1f(5) by simp
    qed
    have hit: "scan_hit ?t1 s = Some (length (sources t))"
      by (rule scan_hit_last[OF t1f(1) lo none])
    have rng: "in_range (weights ?t1) (int (length (sources t)))"
      using t1f(2) len by (simp add: in_range_def)
    let ?t2 = "?t1\<lparr>weights := (weights ?t1)[nat (int (length (sources t))) :=
                  weights ?t1 ! nat (int (length (sources t))) + w2]\<rparr>"
    have a2: "Index_AddWithWeight d s w2 ?t1 = Inr ?t2"
      using c sp1(3) hit t1f(6) assms(8) Add_Scalar[OF rng, of w2]
      by (simp add: Index_AddWithWeight_coarse[OF sp1(1) s1 assms(6)])
    have "sources ?t2 = sources t @ [s]" "weights ?t2 = weights t @ [w1 + w2]"
      "sizes ?t2 ! nat d = open_size t d + 1"
      using t1f(1,2,4) by (simp_all add: len[symmetric])
    then show ?thesis using a1 a2 by blast
  qed
  have plain: "\<exists>t1 t2. Index_AddWithWeight d s w1 t = Inr t1
                \<and> Index_AddWithWeight d s w2 t1 = Inr t2
                \<and> sources t2 = sources t @ [s, s] \<and> weights t2 = weights t @ [w1, w2]
                \<and> sizes t2 ! nat d = open_size t d + 2"
    if c: "\<not> compactWeights t"
  proof -
    have a1: "Index_AddWithWeight d s w1 t = Inr ?t1" using first_append c by blast
    obtain e2 where e2: "add ?A s d w2 ?t1 = Inr (PushBack ?A w2 e2)"
      "weights e2 = weights ?t1" "sources e2 = sources ?t1 @ [s]"
      "sizes e2 ! nat d = open_size ?t1 d + 1"
      using add_append[OF sp1(1) assms(3), of ?A s w2] by blast
    let ?t2 = "PushBack ?A w2 e2"
    have a2: "Index_AddWithWeight d s w2 ?t1 = Inr ?t2"
      using c t1f(6) e2(1) assms(8)
      by (simp add: Index_AddWithWeight_coarse[OF sp1(1) s1 assms(6)])
    have "open_size ?t1 d = open_size t d + 1" using sp1(3) t1f(4) by (simp add: open_size_def)
    then have "sources ?t2 = sources t @ [s, s]" "weights ?t2 = weights t @ [w1, w2]"
      "sizes ?t2 ! nat d = open_size t d + 2"
      using e2(2,3,4) t1f(1,2) by (simp_all add: PushBack_Scalar)
    then show ?thesis using a1 a2 by blast
  qed
  show ?thesis using compact plain by blast
qed

theorem compaction_of_repeated_source_witness:
  "wf_table example_table \<and> parallel example_table \<and> (0::int) \<le> 3
   \<and> 0 < coarseVertCount example_table \<and> compactWeights example_table
   \<and> \<not> is_open example_table 3
   \<and> (\<exists>t1 t2. Index_AddWithWeight 3 0 (1/4) example_table = Inr t1
          \<and> Index_AddWithWeight 3 0 (1/2) t1 = Inr t2
          \<and> sources t2 = sources example_table @ [0]
          \<and> weights t2 = weights example_table @ [1/4 + 1/2]
          \<and> sizes t2 ! nat 3 = open_size example_table 3 + 1)
   \<and> wf_table (example_table\<lparr>compactWeights := False\<rparr>)
   \<and> parallel (example_table\<lparr>compactWeights := False\<rparr>)
   \<and> (\<exists>t1 t2. Index_AddWithWeight 3 0 (1/4) (example_table\<lparr>compactWeights := False\<rparr>) = Inr t1
          \<and> Index_AddWithWeight 3 0 (1/2) t1 = Inr t2
          \<and> sources t2 = sources example_table @ [0, 0]
          \<and> weights t2 = weights example_table @ [1/4, 1/2]
          \<and> sizes t2 ! nat 3 = open_size example_table 3 + 2)"
proof -
  let ?p = "example_table\<lparr>compactWeights := False\<rparr>"
  have h1: "wf_table example_table" by code_simp
  have h2: "parallel example_table" by code_simp
  have h3: "(0::int) \<le> 3" by simp
  have h4: "0 < coarseVertCount example_table" by (simp add: example_table_def)
  have h5: "(1/4::real) \<noteq> 0" "(1/2::real) \<noteq> 0" "(1/4::real) * 1 = 1/4" "(1/2::real) * 1 = 1/2"
    by simp_all
  have h6: "compactWeights example_table" "\<not> is_open example_table 3"
    by (simp_all add: example_table_def is_open_def)
  have g1: "wf_table ?p" by code_simp
  have g2: "parallel ?p" by code_simp
  have g4: "0 < coarseVertCount ?p" "\<not> compactWeights ?p" by (simp_all add: example_table_def)
  have g5: "open_size ?p 3 = open_size example_table 3"
    by (simp add: open_size_def is_open_def)
  show ?thesis
    using h1 h2 h4 h6 g1 g2 g4
      compaction_of_repeated_source [OF h1 h2 h3 h4 h5]
      compaction_of_repeated_source [OF g1 g2 h3 g4(1) h5]
    by (simp add: g5)
qed

section \<open>The derivative payload\<close>

lemma Add_PointDeriv:
  "in_range (weights t) i \<Longrightarrow> in_range (duWeights t) i \<Longrightarrow> in_range (dvWeights t) i \<Longrightarrow>
   Add PointDerivAccumulator i x t =
     Inr (t\<lparr>weights := (weights t)[nat i := weights t ! nat i + pw x],
            duWeights := (duWeights t)[nat i := duWeights t ! nat i + duw x],
            dvWeights := (dvWeights t)[nat i := dvWeights t ! nat i + dvw x]\<rparr>)"
  by (simp add: PointDerivAccumulator_def)

lemma PointDerivWeight_times_components:
  "pw (a * b) = pw a * pw b" "duw (a * b) = duw a * duw b" "dvw (a * b) = dvw a * dvw b"
  by (simp_all add: times_PointDerivWeight_def)

lemma PointDerivWeight_plus_components:
  "pw (a + b) = pw a + pw b" "duw (a + b) = duw a + duw b" "dvw (a + b) = dvw a + dvw b"
  by (simp_all add: plus_PointDerivWeight_def)

lemma PointDerivWeight_one_components:
  "pw (1 :: 'w::one PointDerivWeight) = 1" "duw (1 :: 'w PointDerivWeight) = 1"
  "dvw (1 :: 'w PointDerivWeight) = 1"
  by (simp_all add: one_PointDerivWeight_def PointDerivWeight1_def)

lemma Get_PointDeriv:
  "in_range (weights t) i \<Longrightarrow> in_range (duWeights t) i \<Longrightarrow> in_range (dvWeights t) i \<Longrightarrow>
   Get PointDerivAccumulator i t =
     Inr (PointDerivWeight (weights t ! nat i) (duWeights t ! nat i) (dvWeights t ! nat i))"
  by (simp add: PointDerivAccumulator_def)

lemma single_entry:
  assumes "(m::'w::zero) \<noteq> 0"
  shows "stencil_ok (Stencil 1 [s] [m])" "stencil_entries (Stencil 1 [s] [m]) = [(s, m)]"
  using assms by (simp_all add: stencil_ok_def stencil_entries_def)

text \<open>A derivative call with a one-entry external stencil is one engine call.\<close>

lemma Index_AddWithWeight_Deriv_single:
  fixes t :: "('w::{zero,one,plus,times}) WeightTable"
  assumes m: "m \<noteq> 0" and nz: "\<not> (w = 0 \<and> du = 0 \<and> dv = 0)"
  shows "Index_AddWithWeight_Deriv d (Stencil 1 [s] [m]) w du dv t =
     AddWithWeight PointDerivAccumulator s d (PointDerivWeight (w * m) (du * m) (dv * m)) t"
proof -
  have x: "PointDerivWeight w du dv * PointDerivWeight1 m = PointDerivWeight (w * m) (du * m) (dv * m)"
    by (simp add: times_PointDerivWeight_def PointDerivWeight1_def)
  have "Index_AddWithWeight_Deriv d (Stencil 1 [s] [m]) w du dv t =
          run_calls PointDerivAccumulator
            (deriv_calls (AddStencilDeriv d (Stencil 1 [s] [m]) w du dv)) t"
    using apply_write_deriv[of "AddStencilDeriv d (Stencil 1 [s] [m]) w du dv" t]
      single_entry(1)[OF m] by simp
  also have "\<dots> = AddWithWeight PointDerivAccumulator s d
                     (PointDerivWeight w du dv * PointDerivWeight1 m) t"
    using nz single_entry(2)[OF m] by (auto split: sum.splits)
  finally show ?thesis by (simp add: x)
qed

lemma AddWithWeight_coarse:
  assumes "wf_table t" and "s < coarseVertCount t"
  shows "AddWithWeight acc s d x t =
     (if compactWeights t \<and> is_open t d then
        (case scan_hit t s of
           Some k \<Rightarrow> Add acc (int k) (x * 1) t
         | None \<Rightarrow> add acc s d (x * 1) t)
      else add acc s d (x * 1) t)"
  using assms(2) merge_eq[OF assms(1), of acc s d x 1] by (simp add: AddWithWeight_def)

text \<open>Two successive engine calls with the derivative accumulator for the coarse source
  \<open>s\<close>: one entry, each channel the sum of its own two products.\<close>

lemma deriv_two_coarse:
  fixes t :: "('w::{zero,one,plus,times}) WeightTable"
  assumes "wf_table t" and "parallel t" and "deriv_parallel t" and "compactWeights t"
    and "0 \<le> d" and "s < coarseVertCount t" and "is_open t d \<longrightarrow> scan_hit t s = None"
  shows "\<exists>t1 t2. AddWithWeight PointDerivAccumulator s d x1 t = Inr t1
           \<and> AddWithWeight PointDerivAccumulator s d x2 t1 = Inr t2
           \<and> sources t2 = sources t @ [s] \<and> sizes t2 ! nat d = open_size t d + 1
           \<and> weights t2 = weights t @ [pw x1 * 1 + pw x2 * 1]
           \<and> duWeights t2 = duWeights t @ [duw x1 * 1 + duw x2 * 1]
           \<and> dvWeights t2 = dvWeights t @ [dvw x1 * 1 + dvw x2 * 1]"
proof -
  let ?A = "PointDerivAccumulator :: ('w, 'w PointDerivWeight) WACCUM"
  note cmp = PointDerivWeight_times_components PointDerivWeight_one_components
  obtain e where e: "add ?A s d (x1 * 1) t = Inr (PushBack ?A (x1 * 1) e)"
    "weights e = weights t" "duWeights e = duWeights t" "dvWeights e = dvWeights t"
    "sources e = sources t @ [s]"
    "sizes e ! nat d = open_size t d + 1"
    "lastOffset e = (if is_open t d then lastOffset t else int (length (sources t)))"
    "compactWeights e = compactWeights t" "coarseVertCount e = coarseVertCount t"
    using add_append[OF assms(1,5), of ?A s "x1 * 1"] by blast
  let ?t1 = "PushBack ?A (x1 * 1) e"
  have t1f: "sources ?t1 = sources t @ [s]" "weights ?t1 = weights t @ [pw x1 * 1]"
    "duWeights ?t1 = duWeights t @ [duw x1 * 1]" "dvWeights ?t1 = dvWeights t @ [dvw x1 * 1]"
    "sizes ?t1 ! nat d = open_size t d + 1"
    "lastOffset ?t1 = (if is_open t d then lastOffset t else int (length (sources t)))"
    "compactWeights ?t1 = compactWeights t" "coarseVertCount ?t1 = coarseVertCount t"
    using e by (simp_all add: PushBack_PointDeriv cmp)
  obtain t1' where "add ?A s d (x1 * 1) t = Inr t1'"
    and sp: "step_post deriv_parallel t d t1'"
    using add_ok[OF PointDerivAccumulator_frame PointDerivAccumulator_keeps assms(1,2,3,5,6),
        of "x1 * 1"] by blast
  then have sp1: "wf_table ?t1" "parallel ?t1" "is_open ?t1 d"
    using e(1) by (simp_all add: step_post_def)
  have s1: "s < coarseVertCount ?t1" using assms(6) t1f(8) by simp
  have len: "length (weights t) = length (sources t)" using parallelD(2)[OF assms(2)] .
  have dlen: "length (duWeights t) = length (sources t)" "length (dvWeights t) = length (sources t)"
    using assms(3) len by (simp_all add: deriv_parallel_def)
  have a1: "AddWithWeight ?A s d x1 t = Inr ?t1"
    using e(1) assms(7) by (auto simp: AddWithWeight_coarse[OF assms(1,6)])
  have lo: "nat (lastOffset ?t1) \<le> length (sources t)"
  proof (cases "is_open t d")
    case True
    then have "dests t \<noteq> []" by (simp add: is_open_def)
    then show ?thesis using open_okD(7)[OF assms(1)] t1f(6) True by simp
  next
    case False
    then show ?thesis using t1f(6) by simp
  qed
  have none: "\<forall>j. nat (lastOffset ?t1) \<le> j \<and> j < length (sources t) \<longrightarrow> sources t ! j \<noteq> s"
  proof (cases "is_open t d")
    case True
    then show ?thesis using scan_hit_None[of t s] assms(7) t1f(6) by simp
  next
    case False
    then show ?thesis using t1f(6) by simp
  qed
  have hit: "scan_hit ?t1 s = Some (length (sources t))"
    by (rule scan_hit_last[OF t1f(1) lo none])
  let ?n = "int (length (sources t))"
  have rng: "in_range (weights ?t1) ?n" "in_range (duWeights ?t1) ?n"
    "in_range (dvWeights ?t1) ?n"
    using t1f(2,3,4) len dlen by (simp_all add: in_range_def)
  let ?t2 = "?t1\<lparr>weights := (weights ?t1)[nat ?n := weights ?t1 ! nat ?n + pw (x2 * 1)],
            duWeights := (duWeights ?t1)[nat ?n := duWeights ?t1 ! nat ?n + duw (x2 * 1)],
            dvWeights := (dvWeights ?t1)[nat ?n := dvWeights ?t1 ! nat ?n + dvw (x2 * 1)]\<rparr>"
  have a2: "AddWithWeight ?A s d x2 ?t1 = Inr ?t2"
    using assms(4) sp1(3) hit t1f(7) Add_PointDeriv[OF rng, of "x2 * 1"]
    by (simp add: AddWithWeight_coarse[OF sp1(1) s1])
  have "sources ?t2 = sources t @ [s]" "sizes ?t2 ! nat d = open_size t d + 1"
    using t1f(1,5) by simp_all
  moreover have "weights ?t2 = weights t @ [pw x1 * 1 + pw x2 * 1]"
    using t1f(2) by (simp add: len[symmetric] cmp)
  moreover have "duWeights ?t2 = duWeights t @ [duw x1 * 1 + duw x2 * 1]"
    using t1f(3) by (simp add: dlen(1)[symmetric] cmp)
  moreover have "dvWeights ?t2 = dvWeights t @ [dvw x1 * 1 + dvw x2 * 1]"
    using t1f(4) by (simp add: dlen(2)[symmetric] cmp)
  ultimately show ?thesis using a1 a2 by blast
qed

text \<open>One engine call with the derivative accumulator for a source outside the control
  mesh whose stencil has one entry, to a new stencil: each channel of the new entry is the
  product of the stored channel and the channel of the weight.\<close>

lemma deriv_expand_single:
  fixes t :: "('w::{zero,one,plus,times}) WeightTable"
  assumes wf_table: "wf_table t" and par: "parallel t" and dp: "deriv_parallel t"
    and d: "0 \<le> d" and src: "src \<in> set (dests t)" and nc: "\<not> src < coarseVertCount t"
    and one: "sizes t ! nat src = 1" and nop: "\<not> is_open t d"
  shows "\<exists>t1. AddWithWeight PointDerivAccumulator src d x t = Inr t1
     \<and> sources t1 = sources t @ [sources t ! nat (indices t ! nat src)]
     \<and> sizes t1 ! nat d = 1
     \<and> weights t1 = weights t @ [weights t ! nat (indices t ! nat src) * pw x]
     \<and> duWeights t1 = duWeights t @ [duWeights t ! nat (indices t ! nat src) * duw x]
     \<and> dvWeights t1 = dvWeights t @ [dvWeights t ! nat (indices t ! nat src) * dvw x]"
proof -
  let ?A = "PointDerivAccumulator :: ('w, 'w PointDerivWeight) WACCUM"
  let ?start = "indices t ! nat src"
  let ?k = "nat ?start"
  note r = dests_okD[OF wf_tableD(6)[OF wf_table] src]
  have ns: "nat src < length (sizes t)" using r(1) unfolding in_range_def by linarith
  have leq: "length (indices t) = length (sizes t)"
    using wf_tableD(4)[OF wf_table] by (simp add: ranges_ok_def)
  have ri: "in_range (indices t) src" using r(1) leq by (simp add: in_range_def)
  note g = ranges_okD[OF wf_tableD(4)[OF wf_table] ns]
  have rs: "in_range (sources t) ?start" using g one by (simp add: in_range_def)
  then have kl: "?k < length (sources t)" unfolding in_range_def by linarith
  have co: "sources t ! ?k < coarseVertCount t"
    using coarse_onlyD[OF wf_tableD(3)[OF wf_table] kl] .
  have len: "length (weights t) = length (sources t)" using parallelD(2)[OF par] .
  have dlen: "length (duWeights t) = length (sources t)" "length (dvWeights t) = length (sources t)"
    using dp len by (simp_all add: deriv_parallel_def)
  have rw: "in_range (weights t) ?start" "in_range (duWeights t) ?start"
    "in_range (dvWeights t) ?start"
    using rs len dlen by (simp_all add: in_range_def)
  let ?g = "PointDerivWeight (weights t ! ?k) (duWeights t ! ?k) (dvWeights t ! ?k)"
  let ?t1 = "PushBack ?A (?g * x) (new_entry (sources t ! ?k) d (header d t))"
  have mg: "merge ?A (sources t ! ?k) d ?g x (lastOffset t) (size' t) t = Inr ?t1"
    using nop add_fresh_eq[OF d leq nop, of ?A "sources t ! ?k" "?g * x"]
    by (simp add: merge_eq[OF wf_table])
  have l2: "AddWithWeight_loop ?A d x (?start + 1) (?start + 1) ?t1 = Inr ?t1"
    by (simp add: AddWithWeight_loop.simps[of ?A d x "?start + 1" "?start + 1" ?t1])
  have l1: "AddWithWeight_loop ?A d x ?start (?start + 1) t = Inr ?t1"
    using rs co Get_PointDeriv[OF rw] mg l2
    by (simp add: AddWithWeight_loop.simps[of ?A d x ?start "?start + 1" t])
  have eq: "AddWithWeight ?A src d x t = Inr ?t1"
    using nc r(1) ri one l1 by (simp add: AddWithWeight_def Let_def)
  note f = fresh_fields[OF d leq, where s = "sources t ! ?k"]
  have nd: "nat d < max (length (sizes t)) (nat d + 1)" by simp
  have "sources ?t1 = sources t @ [sources t ! ?k]" "sizes ?t1 ! nat d = 1"
    "weights ?t1 = weights t @ [weights t ! ?k * pw x]"
    "duWeights ?t1 = duWeights t @ [duWeights t ! ?k * duw x]"
    "dvWeights ?t1 = dvWeights t @ [dvWeights t ! ?k * dvw x]"
    using f(13)[OF nd]
    by (simp_all add: PushBack_PointDeriv f(1-9) PointDerivWeight_times_components)
  then show ?thesis using eq by blast
qed

lemma example_deriv_table_run:
  "run [AddStencilDeriv 2 (Stencil 1 [0] [1]) 2 3 5]
     \<lparr>dests = [], sources = [], weights = [], duWeights = [], dvWeights = [],
      indices = [], sizes = [], size' = 0, lastOffset = 0,
      coarseVertCount = 2, compactWeights = True\<rparr> = Inr example_deriv_table"
  by code_simp

text \<open>
  C7. The three channels of the derivative payload are multiplied and accumulated each on
  its own, on a table that satisfies the invariant and whose three weight arrays are
  parallel:
  \<^item> \<open>operator*\<close> and \<open>operator+=\<close> of \<open>PointDerivWeight\<close> act per component;
  \<^item> with compaction, two successive contributions \<open>(w1, du1, dv1)\<close> and \<open>(w2, du2, dv2)\<close>
    through the one-entry external stencil \<open>{s: m}\<close> to the destination \<open>d\<close> (new, or open
    and not yet holding \<open>s\<close>) leave one new entry for \<open>s\<close>, whose \<open>weights\<close>, \<open>duWeights\<close> and
    \<open>dvWeights\<close> values are \<open>w1*m*1 + w2*m*1\<close>, \<open>du1*m*1 + du2*m*1\<close> and \<open>dv1*m*1 + dv2*m*1\<close>;
  \<^item> a contribution through a source outside the control mesh whose stencil has one
    entry appends an entry whose three values are the stored \<open>weights\<close>, \<open>duWeights\<close> and
    \<open>dvWeights\<close> values of that entry times \<open>w1*m\<close>, \<open>du1*m\<close> and \<open>dv1*m\<close>;
  \<^item> so \<open>(0, 1, 0)\<close> followed by \<open>(1, 0, 0)\<close>, through \<open>{s: 1}\<close>, accumulates to \<open>(1, 1, 0)\<close> in
    the one entry of \<open>s\<close>, in any arithmetic with the stated facts about \<open>0\<close> and \<open>1\<close>, which
    \<open>float\<close> has.
\<close>

theorem derivative_channels_independent:
  fixes t :: "('w::{zero,one,plus,times}) WeightTable"
  assumes "wf_table t" and "parallel t" and "deriv_parallel t" and "0 \<le> d" and "m \<noteq> 0"
    and "\<not> (w1 = 0 \<and> du1 = 0 \<and> dv1 = 0)" and "\<not> (w2 = 0 \<and> du2 = 0 \<and> dv2 = 0)"
  shows "PointDerivWeight a1 a2 a3 * PointDerivWeight b1 b2 b3
           = (PointDerivWeight (a1 * b1) (a2 * b2) (a3 * b3) :: 'w PointDerivWeight)
       \<and> PointDerivWeight a1 a2 a3 + PointDerivWeight b1 b2 b3
           = (PointDerivWeight (a1 + b1) (a2 + b2) (a3 + b3) :: 'w PointDerivWeight)
       \<and> (compactWeights t \<and> s < coarseVertCount t \<and> (is_open t d \<longrightarrow> scan_hit t s = None) \<longrightarrow>
            (\<exists>t1 t2. Index_AddWithWeight_Deriv d (Stencil 1 [s] [m]) w1 du1 dv1 t = Inr t1
               \<and> Index_AddWithWeight_Deriv d (Stencil 1 [s] [m]) w2 du2 dv2 t1 = Inr t2
               \<and> sources t2 = sources t @ [s] \<and> sizes t2 ! nat d = open_size t d + 1
               \<and> weights t2 = weights t @ [w1 * m * 1 + w2 * m * 1]
               \<and> duWeights t2 = duWeights t @ [du1 * m * 1 + du2 * m * 1]
               \<and> dvWeights t2 = dvWeights t @ [dv1 * m * 1 + dv2 * m * 1]))
       \<and> (src \<in> set (dests t) \<and> \<not> src < coarseVertCount t \<and> sizes t ! nat src = 1
            \<and> \<not> is_open t d \<longrightarrow>
            (\<exists>t1. Index_AddWithWeight_Deriv d (Stencil 1 [src] [m]) w1 du1 dv1 t = Inr t1
               \<and> sources t1 = sources t @ [sources t ! nat (indices t ! nat src)]
               \<and> sizes t1 ! nat d = 1
               \<and> weights t1 = weights t @ [weights t ! nat (indices t ! nat src) * (w1 * m)]
               \<and> duWeights t1 = duWeights t @ [duWeights t ! nat (indices t ! nat src) * (du1 * m)]
               \<and> dvWeights t1 = dvWeights t @ [dvWeights t ! nat (indices t ! nat src) * (dv1 * m)]))
       \<and> (compactWeights t \<and> s < coarseVertCount t \<and> (is_open t d \<longrightarrow> scan_hit t s = None)
            \<and> (1::'w) \<noteq> 0 \<and> (0::'w) * 1 = 0 \<and> (1::'w) * 1 = 1
            \<and> (0::'w) + 1 = 1 \<and> (1::'w) + 0 = 1 \<and> (0::'w) + 0 = 0 \<longrightarrow>
            (\<exists>t1 t2. Index_AddWithWeight_Deriv d (Stencil 1 [s] [1]) 0 1 0 t = Inr t1
               \<and> Index_AddWithWeight_Deriv d (Stencil 1 [s] [1]) 1 0 0 t1 = Inr t2
               \<and> sources t2 = sources t @ [s] \<and> sizes t2 ! nat d = open_size t d + 1
               \<and> weights t2 = weights t @ [1] \<and> duWeights t2 = duWeights t @ [1]
               \<and> dvWeights t2 = dvWeights t @ [0]))"
proof -
  let ?A = "PointDerivAccumulator :: ('w, 'w PointDerivWeight) WACCUM"
  have A: "PointDerivWeight a1 a2 a3 * PointDerivWeight b1 b2 b3
           = (PointDerivWeight (a1 * b1) (a2 * b2) (a3 * b3) :: 'w PointDerivWeight)"
    by (simp add: times_PointDerivWeight_def)
  have A': "PointDerivWeight a1 a2 a3 + PointDerivWeight b1 b2 b3
           = (PointDerivWeight (a1 + b1) (a2 + b2) (a3 + b3) :: 'w PointDerivWeight)"
    by (simp add: plus_PointDerivWeight_def)
  have B: "\<exists>t1 t2. Index_AddWithWeight_Deriv d (Stencil 1 [s] [m]) w1 du1 dv1 t = Inr t1
               \<and> Index_AddWithWeight_Deriv d (Stencil 1 [s] [m]) w2 du2 dv2 t1 = Inr t2
               \<and> sources t2 = sources t @ [s] \<and> sizes t2 ! nat d = open_size t d + 1
               \<and> weights t2 = weights t @ [w1 * m * 1 + w2 * m * 1]
               \<and> duWeights t2 = duWeights t @ [du1 * m * 1 + du2 * m * 1]
               \<and> dvWeights t2 = dvWeights t @ [dv1 * m * 1 + dv2 * m * 1]"
    if h: "compactWeights t" "s < coarseVertCount t" "is_open t d \<longrightarrow> scan_hit t s = None"
    using deriv_two_coarse[OF assms(1,2,3) h(1) assms(4) h(2,3),
        of "PointDerivWeight (w1 * m) (du1 * m) (dv1 * m)"
           "PointDerivWeight (w2 * m) (du2 * m) (dv2 * m)"]
    by (simp add: Index_AddWithWeight_Deriv_single[OF assms(5,6)]
        Index_AddWithWeight_Deriv_single[OF assms(5,7)])
  have C: "\<exists>t1. Index_AddWithWeight_Deriv d (Stencil 1 [src] [m]) w1 du1 dv1 t = Inr t1
               \<and> sources t1 = sources t @ [sources t ! nat (indices t ! nat src)]
               \<and> sizes t1 ! nat d = 1
               \<and> weights t1 = weights t @ [weights t ! nat (indices t ! nat src) * (w1 * m)]
               \<and> duWeights t1 = duWeights t @ [duWeights t ! nat (indices t ! nat src) * (du1 * m)]
               \<and> dvWeights t1 = dvWeights t @ [dvWeights t ! nat (indices t ! nat src) * (dv1 * m)]"
    if h: "src \<in> set (dests t)" "\<not> src < coarseVertCount t" "sizes t ! nat src = 1"
      "\<not> is_open t d"
    using deriv_expand_single[OF assms(1,2,3,4) h,
        of "PointDerivWeight (w1 * m) (du1 * m) (dv1 * m)"]
    by (simp add: Index_AddWithWeight_Deriv_single[OF assms(5,6)])
  have D: "\<exists>t1 t2. Index_AddWithWeight_Deriv d (Stencil 1 [s] [1]) 0 1 0 t = Inr t1
               \<and> Index_AddWithWeight_Deriv d (Stencil 1 [s] [1]) 1 0 0 t1 = Inr t2
               \<and> sources t2 = sources t @ [s] \<and> sizes t2 ! nat d = open_size t d + 1
               \<and> weights t2 = weights t @ [1] \<and> duWeights t2 = duWeights t @ [1]
               \<and> dvWeights t2 = dvWeights t @ [0]"
    if h: "compactWeights t" "s < coarseVertCount t" "is_open t d \<longrightarrow> scan_hit t s = None"
      and ar: "(1::'w) \<noteq> 0" "(0::'w) * 1 = 0" "(1::'w) * 1 = 1"
        "(0::'w) + 1 = 1" "(1::'w) + 0 = 1" "(0::'w) + 0 = 0"
  proof -
    have nz1: "\<not> ((0::'w) = 0 \<and> (1::'w) = 0 \<and> (0::'w) = 0)" using ar(1) by simp
    have nz2: "\<not> ((1::'w) = 0 \<and> (0::'w) = 0 \<and> (0::'w) = 0)" using ar(1) by simp
    show ?thesis
      using deriv_two_coarse[OF assms(1,2,3) h(1) assms(4) h(2,3),
          of "PointDerivWeight (0 * 1) (1 * 1) (0 * 1)" "PointDerivWeight (1 * 1) (0 * 1) (0 * 1)"]
      by (simp add: Index_AddWithWeight_Deriv_single[OF ar(1) nz1]
          Index_AddWithWeight_Deriv_single[OF ar(1) nz2] ar)
  qed
  show ?thesis using A A' B C D by blast
qed

theorem derivative_channels_independent_witness:
  "wf_table example_deriv_table \<and> parallel example_deriv_table
   \<and> deriv_parallel example_deriv_table \<and> (0::int) \<le> 3 \<and> (2::real) \<noteq> 0
   \<and> (\<exists>t1 t2. Index_AddWithWeight_Deriv 3 (Stencil 1 [1] [2]) 1 2 3 example_deriv_table = Inr t1
          \<and> Index_AddWithWeight_Deriv 3 (Stencil 1 [1] [2]) 10 20 30 t1 = Inr t2
          \<and> sources t2 = [0, 1] \<and> weights t2 = [2, 22] \<and> duWeights t2 = [3, 44]
          \<and> dvWeights t2 = [5, 66])
   \<and> (\<exists>t1. Index_AddWithWeight_Deriv 3 (Stencil 1 [2] [2]) 1 2 3 example_deriv_table = Inr t1
          \<and> sources t1 = [0, 0] \<and> weights t1 = [2, 4] \<and> duWeights t1 = [3, 12]
          \<and> dvWeights t1 = [5, 30])
   \<and> (\<exists>t1 t2. Index_AddWithWeight_Deriv 3 (Stencil 1 [1] [1]) 0 1 0 example_deriv_table = Inr t1
          \<and> Index_AddWithWeight_Deriv 3 (Stencil 1 [1] [1]) 1 0 0 t1 = Inr t2
          \<and> sources t2 = [0, 1] \<and> weights t2 = [2, 1] \<and> duWeights t2 = [3, 1]
          \<and> dvWeights t2 = [5, 0])"
proof -
  let ?t = example_deriv_table
  have h1: "wf_table ?t" by code_simp
  have h2: "parallel ?t" by code_simp
  have h3: "deriv_parallel ?t" by code_simp
  have h4: "(0::int) \<le> 3" by simp
  have h5: "(2::real) \<noteq> 0" by simp
  have h6: "\<not> ((1::real) = 0 \<and> (2::real) = 0 \<and> (3::real) = 0)"
    "\<not> ((10::real) = 0 \<and> (20::real) = 0 \<and> (30::real) = 0)" by simp_all
  have f: "compactWeights ?t" "1 < coarseVertCount ?t" "\<not> is_open ?t 3"
    "2 \<in> set (dests ?t)" "\<not> 2 < coarseVertCount ?t" "sizes ?t ! 2 = 1"
    "sources ?t = [0]" "weights ?t = [2]" "duWeights ?t = [3]" "dvWeights ?t = [5]"
    "indices ?t ! 2 = 0" "open_size ?t 3 = 0"
    by (simp_all add: example_deriv_table_def is_open_def open_size_def)
  show ?thesis
    using h1 h2 h3
      derivative_channels_independent [OF h1 h2 h3 h4 h5 h6, where s = 1 and src = 2
        and ?a1.0 = 0 and ?a2.0 = 0 and ?a3.0 = 0 and ?b1.0 = 0 and ?b2.0 = 0 and ?b3.0 = 0]
    by (auto simp: f)
qed

text \<open>The runs of the example, computed.\<close>

lemma example_deriv_table_compaction_run:
  "run [AddStencilDeriv 3 (Stencil 1 [1] [2]) 1 2 3,
        AddStencilDeriv 3 (Stencil 1 [1] [2]) 10 20 30] example_deriv_table =
   Inr \<lparr>dests = [2, 3], sources = [0, 1], weights = [2, 22],
        duWeights = [3, 44], dvWeights = [5, 66], indices = [0, 0, 0, 1],
        sizes = [0, 0, 1, 1], size' = 2, lastOffset = 1,
        coarseVertCount = 2, compactWeights = True\<rparr>"
  by code_simp

lemma example_deriv_table_expansion_run:
  "run [AddStencilDeriv 3 (Stencil 1 [2] [2]) 1 2 3] example_deriv_table =
   Inr \<lparr>dests = [2, 3], sources = [0, 0], weights = [2, 4],
        duWeights = [3, 12], dvWeights = [5, 30], indices = [0, 0, 0, 1],
        sizes = [0, 0, 1, 1], size' = 2, lastOffset = 1,
        coarseVertCount = 2, compactWeights = True\<rparr>"
  by code_simp

section \<open>The resolved stencil equals the expansion\<close>







































text \<open>The table that the example program leaves, computed.\<close>

lemma example_program_table:
  "run example_program
     \<lparr>dests = [], sources = [], weights = [], duWeights = [], dvWeights = [],
      indices = [], sizes = [], size' = 0, lastOffset = 0,
      coarseVertCount = 3, compactWeights = True\<rparr> =
   Inr \<lparr>dests = [3, 4, 4, 5, 5, 5], sources = [0, 1, 2, 0, 1, 2],
        weights = [1, 3/5, 2/5, 1/2, 3/10, 1/5], duWeights = [], dvWeights = [],
        indices = [0, 0, 0, 0, 1, 3], sizes = [0, 0, 0, 1, 2, 3], size' = 6,
        lastOffset = 3, coarseVertCount = 3, compactWeights = True\<rparr>"
  by code_simp

lemma example_deriv_program_table:
  "run example_deriv_program
     \<lparr>dests = [], sources = [], weights = [], duWeights = [], dvWeights = [],
      indices = [], sizes = [], size' = 0, lastOffset = 0,
      coarseVertCount = 3, compactWeights = True\<rparr> =
   Inr \<lparr>dests = [3, 4, 4], sources = [0, 0, 1],
        weights = [1, 1, 1], duWeights = [2, 4, 2], dvWeights = [3, 9, 3],
        indices = [0, 0, 0, 0, 1], sizes = [0, 0, 0, 1, 2], size' = 3,
        lastOffset = 1, coarseVertCount = 3, compactWeights = True\<rparr>"
  by code_simp

end
